theory Spec2Isabelle
  imports Complex_Main "HOL-Library.Multiset"
begin

section \<open>The 2048 board engine: a shallow embedding of both source files\<close>

text \<open>
  The repository holds two versions of the game component.
  \<^item> \<^verbatim>\<open>src/App.tsx\<close> keeps the board as a grid \<^verbatim>\<open>number[][]\<close>; its functions are
    embedded below under their own names, suffixed \<open>_grid\<close> where the other file
    has a function of the same name.
  \<^item> \<^verbatim>\<open>src/unnamed/part_000\<close> keeps the board as a list of \<^verbatim>\<open>Tile\<close> objects; its
    functions are suffixed \<open>_tiles\<close>.

  Tile values, rows, columns and scores are JavaScript numbers that only ever hold
  integers; they are modelled as \<open>int\<close>, which is exact as long as they stay below
  \<open>2^53\<close>. Array indices are \<open>nat\<close>. The grid functions are modelled for boards of
  \<open>GRID_SIZE\<close> rows of \<open>GRID_SIZE\<close> cells (\<open>is_board\<close>), the only grids the component
  builds. The two calls of
  \<^verbatim>\<open>Math.random()\<close> are parameters \<open>rnd1\<close> and \<open>rnd2\<close> of type \<open>real\<close>, taken from
  the interval \<open>[0, 1)\<close>.
\<close>

subsection \<open>Shared constants and types\<close>

abbreviation (input) GRID_SIZE :: nat where
  "GRID_SIZE \<equiv> 4"

type_synonym grid = "int list list"

datatype direction = Up | Down | Left | Right

text \<open>A well-formed board: \<open>GRID_SIZE\<close> rows of \<open>GRID_SIZE\<close> cells.\<close>

definition is_board :: "grid \<Rightarrow> bool" where
  "is_board g \<longleftrightarrow> length g = GRID_SIZE \<and> list_all (\<lambda>row. length row = GRID_SIZE) g"

definition grid_sum :: "grid \<Rightarrow> int" where
  "grid_sum g = sum_list (map sum_list g)"

subsection \<open>\<^verbatim>\<open>src/App.tsx\<close>: the grid version\<close>

text \<open>\<^verbatim>\<open>createEmptyGrid\<close> (lines 32-34).\<close>

definition createEmptyGrid :: grid where
  "createEmptyGrid = replicate GRID_SIZE (replicate GRID_SIZE 0)"

text \<open>
  The list of empty cells built by the two nested loops of \<^verbatim>\<open>addRandomTile\<close>
  (lines 41-47), in row-major order.
\<close>

definition emptyCells :: "grid \<Rightarrow> (nat \<times> nat) list" where
  "emptyCells g =
     concat (map (\<lambda>i. map (\<lambda>j. (i, j)) (filter (\<lambda>j. g ! i ! j = 0) [0..<GRID_SIZE]))
                 [0..<GRID_SIZE])"

text \<open>
  \<^verbatim>\<open>addRandomTile\<close> (lines 37-55). \<open>rnd1\<close> is the value of the first
  \<^verbatim>\<open>Math.random()\<close> (the choice of the cell), \<open>rnd2\<close> that of the second (the choice
  of the value).
\<close>

definition addRandomTile_grid :: "real \<Rightarrow> real \<Rightarrow> grid \<Rightarrow> grid" where
  "addRandomTile_grid rnd1 rnd2 currentGrid =
     (let newGrid = currentGrid;
          cells = emptyCells newGrid
      in if length cells > 0 then
           (let (row, col) = cells ! nat \<lfloor>rnd1 * real (length cells)\<rfloor>
            in newGrid[row := (newGrid ! row)[col := (if rnd2 < 0.9 then 2 else 4)]])
         else newGrid)"

text \<open>
  \<^verbatim>\<open>canMove\<close> (lines 76-85): the test made at one cell, and the two nested loops
  that return \<^verbatim>\<open>true\<close> at the first cell passing it.
\<close>

definition canMove_cell :: "grid \<Rightarrow> nat \<Rightarrow> nat \<Rightarrow> bool" where
  "canMove_cell g i j \<longleftrightarrow>
     g ! i ! j = 0
     \<or> (j < GRID_SIZE - 1 \<and> g ! i ! j = g ! i ! (j + 1))
     \<or> (i < GRID_SIZE - 1 \<and> g ! i ! j = g ! (i + 1) ! j)"

definition canMove_grid :: "grid \<Rightarrow> bool" where
  "canMove_grid currentGrid \<longleftrightarrow>
     list_ex (\<lambda>i. list_ex (\<lambda>j. canMove_cell currentGrid i j) [0..<GRID_SIZE]) [0..<GRID_SIZE]"

text \<open>
  The merge loop of \<^verbatim>\<open>slideLeft\<close> (lines 100-106):
  \<^verbatim>\<open>for (let i = 0; i < arr.length - 1; i++)
    if (arr[i] === arr[i + 1]) { arr[i] *= 2; points += arr[i]; arr.splice(i + 1, 1); }\<close>
  The guard \<^verbatim>\<open>i < arr.length - 1\<close> is written \<open>i + 1 < length arr\<close>, which is the
  same test on natural numbers (also for the empty array, where the source compares
  with \<open>-1\<close>). \<^verbatim>\<open>splice(i + 1, 1)\<close> removes the element at index \<open>i + 1\<close>.
\<close>

function slide_loop :: "int list \<Rightarrow> nat \<Rightarrow> int \<Rightarrow> int list \<times> int" where
  "slide_loop arr i points =
     (if i + 1 < length arr then
        (if arr ! i = arr ! (i + 1) then
           (let arr1 = arr[i := arr ! i * 2];
                points1 = points + arr1 ! i;
                arr2 = take (i + 1) arr1 @ drop (i + 2) arr1
            in slide_loop arr2 (i + 1) points1)
         else slide_loop arr (i + 1) points)
      else (arr, points))"
  by pat_completeness auto
termination
  by (relation "measure (\<lambda>(arr, i, points). length arr - i)") auto

declare slide_loop.simps [simp del]

text \<open>
  \<^verbatim>\<open>slideLeft\<close> (lines 96-113): drop the zeros, merge, pad with zeros up to
  \<open>GRID_SIZE\<close>. The result is the pair \<open>(newRow, points)\<close>.
\<close>

definition slideLeft :: "int list \<Rightarrow> int list \<times> int" where
  "slideLeft row =
     (let arr = filter (\<lambda>val. val \<noteq> 0) row;
          (arr', points) = slide_loop arr 0 0
      in (arr' @ replicate (GRID_SIZE - length arr') 0, points))"

text \<open>
  \<^verbatim>\<open>Array.prototype.join(',')\<close> on an array of integers: each number is printed in
  decimal (a minus sign and the digits; this is how JavaScript prints an integer of
  absolute value below \<open>10^21\<close>) and the results are separated by commas.
\<close>

definition digitChar :: "nat \<Rightarrow> char" where
  "digitChar k = char_of (48 + k)"

function digits :: "nat \<Rightarrow> string" where
  "digits n = (if n < 10 then [digitChar n] else digits (n div 10) @ [digitChar (n mod 10)])"
  by pat_completeness auto
termination
  by (relation "measure id") auto

declare digits.simps [simp del]

definition numberToString :: "int \<Rightarrow> string" where
  "numberToString n = (if n < 0 then CHR ''-'' # digits (nat (- n)) else digits (nat n))"

fun joinComma :: "int list \<Rightarrow> string" where
  "joinComma [] = []"
| "joinComma [x] = numberToString x"
| "joinComma (x # y # ys) = numberToString x @ CHR '','' # joinComma (y # ys)"

text \<open>
  The four branches of \<^verbatim>\<open>move\<close> (lines 115-165). Each is a loop over
  \<open>0 ..< GRID_SIZE\<close> on the three variables \<open>(newGrid, totalScore, moved)\<close>; the
  functions below are the loop bodies, with the source's comparison of the joined
  strings, \<^verbatim>\<open>original.join(',') !== newRow.join(',')\<close>.
\<close>

text \<open>
  Reading a column into an array (lines 136-139 and 151-154) and writing an array
  back into it (lines 143-145 and 160-162).
\<close>

definition getColumn :: "grid \<Rightarrow> nat \<Rightarrow> int list" where
  "getColumn newGrid col = map (\<lambda>row. newGrid ! row ! col) [0..<GRID_SIZE]"

definition setColumn :: "grid \<Rightarrow> nat \<Rightarrow> int list \<Rightarrow> grid" where
  "setColumn newGrid col newCol =
     fold (\<lambda>row g. g[row := (g ! row)[col := newCol ! row]]) [0..<GRID_SIZE] newGrid"

fun move_body :: "direction \<Rightarrow> nat \<Rightarrow> grid \<times> int \<times> bool \<Rightarrow> grid \<times> int \<times> bool" where
  "move_body Left i (newGrid, totalScore, moved) =
     (let original = newGrid ! i;
          (newRow, points) = slideLeft (newGrid ! i)
      in (newGrid[i := newRow], totalScore + points,
          (if joinComma original \<noteq> joinComma newRow then True else moved)))"
| "move_body Right i (newGrid, totalScore, moved) =
     (let original = newGrid ! i;
          reversed = rev (newGrid ! i);
          (newRow, points) = slideLeft reversed;
          newGrid' = newGrid[i := rev newRow]
      in (newGrid', totalScore + points,
          (if joinComma original \<noteq> joinComma (newGrid' ! i) then True else moved)))"
| "move_body Up col (newGrid, totalScore, moved) =
     (let column = getColumn newGrid col;
          original = column;
          (newRow, points) = slideLeft column
      in (setColumn newGrid col newRow, totalScore + points,
          (if joinComma original \<noteq> joinComma newRow then True else moved)))"
| "move_body Down col (newGrid, totalScore, moved) =
     (let column = getColumn newGrid col;
          original = column;
          reversed = rev column;
          (newRow, points) = slideLeft reversed;
          finalCol = rev newRow
      in (setColumn newGrid col finalCol, totalScore + points,
          (if joinComma original \<noteq> joinComma finalCol then True else moved)))"

text \<open>
  The slide and merge part of \<^verbatim>\<open>move\<close> (lines 91-165): the values of
  \<open>(newGrid, totalScore, moved)\<close> when line 167 is reached.
\<close>

definition move_transform_grid :: "direction \<Rightarrow> grid \<Rightarrow> grid \<times> int \<times> bool" where
  "move_transform_grid d g = fold (move_body d) [0..<GRID_SIZE] (g, 0, False)"

text \<open>
  The component state of \<^verbatim>\<open>src/App.tsx\<close> (lines 24-28), with the value stored in
  \<^verbatim>\<open>localStorage\<close> under \<^verbatim>\<open>kitsch-2048-best\<close>.
\<close>

record game_state =
  gs_grid :: grid
  gs_score :: int
  gs_bestScore :: int
  gs_gameOver :: bool
  gs_won :: bool
  gs_stored :: "int option"

text \<open>\<^verbatim>\<open>move\<close> as a whole (lines 88-187).\<close>

definition move_grid :: "real \<Rightarrow> real \<Rightarrow> direction \<Rightarrow> game_state \<Rightarrow> game_state" where
  "move_grid rnd1 rnd2 d s =
     (if gs_gameOver s then s
      else
        (let (newGrid, totalScore, moved) = move_transform_grid d (gs_grid s)
         in if moved then
              (let newGrid' = addRandomTile_grid rnd1 rnd2 newGrid;
                   newScore = gs_score s + totalScore
               in s\<lparr> gs_grid := newGrid',
                     gs_score := newScore,
                     gs_bestScore := (if newScore > gs_bestScore s then newScore else gs_bestScore s),
                     gs_stored := (if newScore > gs_bestScore s then Some newScore else gs_stored s),
                     gs_gameOver := (if \<not> canMove_grid newGrid' then True else gs_gameOver s) \<rparr>)
            else s))"

subsection \<open>\<^verbatim>\<open>src/unnamed/part_000\<close>: the tile-list version\<close>

text \<open>
  The interface \<^verbatim>\<open>Tile\<close> (lines 24-31). The identifier \<^verbatim>\<open>`tile-${n}`\<close> is
  represented by its number \<open>n\<close>; the optional flags are \<open>None\<close> when absent.
\<close>

record Tile =
  tid :: nat
  tvalue :: int
  trow :: int
  tcol :: int
  isNew :: "bool option"
  isMerged :: "bool option"

text \<open>
  \<^verbatim>\<open>tilesToGrid\<close> (lines 67-75): every tile whose position is inside the grid
  writes its value into its cell, in list order, on a grid of zeros.
\<close>

definition place_tile :: "Tile \<Rightarrow> grid \<Rightarrow> grid" where
  "place_tile tile g =
     (if trow tile \<ge> 0 \<and> trow tile < int GRID_SIZE \<and> tcol tile \<ge> 0 \<and> tcol tile < int GRID_SIZE
      then g[nat (trow tile) := (g ! nat (trow tile))[nat (tcol tile) := tvalue tile]]
      else g)"

definition tilesToGrid :: "Tile list \<Rightarrow> grid" where
  "tilesToGrid tileList = fold place_tile tileList (replicate GRID_SIZE (replicate GRID_SIZE 0))"

text \<open>\<^verbatim>\<open>getEmptyCells\<close> (lines 78-89).\<close>

definition getEmptyCells :: "Tile list \<Rightarrow> (nat \<times> nat) list" where
  "getEmptyCells tileList =
     (let g = tilesToGrid tileList
      in concat (map (\<lambda>i. map (\<lambda>j. (i, j)) (filter (\<lambda>j. g ! i ! j = 0) [0..<GRID_SIZE]))
                     [0..<GRID_SIZE]))"

text \<open>
  \<^verbatim>\<open>addRandomTile\<close> (lines 92-106). The counter \<^verbatim>\<open>tileIdCounter.current\<close> is passed
  in and returned; \<^verbatim>\<open>generateId\<close> (lines 61-64) increments it and uses the new value.
\<close>

definition addRandomTile_tiles :: "real \<Rightarrow> real \<Rightarrow> Tile list \<times> nat \<Rightarrow> Tile list \<times> nat" where
  "addRandomTile_tiles rnd1 rnd2 st =
     (case st of (tileList, counter) \<Rightarrow>
        (let cells = getEmptyCells tileList
         in if length cells = 0 then (tileList, counter)
            else
              (let (row, col) = cells ! nat \<lfloor>rnd1 * real (length cells)\<rfloor>;
                   counter' = counter + 1;
                   newTile = \<lparr> tid = counter',
                               tvalue = (if rnd2 < 0.9 then 2 else 4),
                               trow = int row,
                               tcol = int col,
                               isNew = Some True,
                               isMerged = None \<rparr>
               in (tileList @ [newTile], counter'))))"

text \<open>\<^verbatim>\<open>canMove\<close> (lines 129-146): first the loops looking for a zero, then the
  loops looking for two equal neighbours.\<close>

definition canMove_tiles :: "Tile list \<Rightarrow> bool" where
  "canMove_tiles tileList \<longleftrightarrow>
     (let g = tilesToGrid tileList
      in if list_ex (\<lambda>i. list_ex (\<lambda>j. g ! i ! j = 0) [0..<GRID_SIZE]) [0..<GRID_SIZE] then True
         else list_ex (\<lambda>i. list_ex (\<lambda>j.
                  (j < GRID_SIZE - 1 \<and> g ! i ! j = g ! i ! (j + 1))
                  \<or> (i < GRID_SIZE - 1 \<and> g ! i ! j = g ! (i + 1) ! j)) [0..<GRID_SIZE]) [0..<GRID_SIZE])"

text \<open>The win test of line 225, \<^verbatim>\<open>finalTiles.some(t => t.value === 2048)\<close>.\<close>

definition hasReachedTarget :: "Tile list \<Rightarrow> bool" where
  "hasReachedTarget finalTiles \<longleftrightarrow> list_ex (\<lambda>t. tvalue t = 2048) finalTiles"

text \<open>The two flags of lines 158-159.\<close>

definition isHorizontal :: "direction \<Rightarrow> bool" where
  "isHorizontal d \<longleftrightarrow> d = Left \<or> d = Right"

definition reverse :: "direction \<Rightarrow> bool" where
  "reverse d \<longleftrightarrow> d = Right \<or> d = Down"

text \<open>
  The inner loop of \<^verbatim>\<open>move\<close> (lines 179-211) runs over the sorted line with the
  variables \<open>(processedLine, pos, counter, totalPoints, moved)\<close>. Its body has two
  branches: \<open>merge_branch\<close> is lines 187-200 and \<open>shift_branch\<close> lines 202-207, each
  followed by \<^verbatim>\<open>pos += step\<close> (line 210).
\<close>

type_synonym line_state = "Tile list \<times> int \<times> nat \<times> int \<times> bool"

definition merge_branch :: "bool \<Rightarrow> int \<Rightarrow> int \<Rightarrow> Tile \<Rightarrow> line_state \<Rightarrow> line_state" where
  "merge_branch isH i step tile st =
     (case st of (processedLine, pos, counter, totalPoints, moved) \<Rightarrow>
        (let oldRow = trow tile;
             oldCol = tcol tile;
             counter' = counter + 1;
             mergedTile = \<lparr> tid = counter',
                            tvalue = tvalue tile * 2,
                            trow = (if isH then i else pos),
                            tcol = (if isH then pos else i),
                            isNew = None,
                            isMerged = Some True \<rparr>
         in (processedLine @ [mergedTile], pos + step, counter',
             totalPoints + tvalue tile * 2,
             (if oldRow \<noteq> trow mergedTile \<or> oldCol \<noteq> tcol mergedTile then True else moved))))"

definition shift_branch :: "bool \<Rightarrow> int \<Rightarrow> int \<Rightarrow> Tile \<Rightarrow> line_state \<Rightarrow> line_state" where
  "shift_branch isH i step tile0 st =
     (case st of (processedLine, pos, counter, totalPoints, moved) \<Rightarrow>
        (let oldRow = trow tile0;
             oldCol = tcol tile0;
             tile = tile0\<lparr> trow := (if isH then i else pos), tcol := (if isH then pos else i) \<rparr>
         in (processedLine @ [tile], pos + step, counter, totalPoints,
             (if oldRow \<noteq> trow tile \<or> oldCol \<noteq> tcol tile then True else moved))))"

text \<open>
  The loop itself, by recursion on the part of the line not yet visited: \<open>tile\<close> is
  \<^verbatim>\<open>line[j]\<close> and \<open>nextTile\<close> is \<^verbatim>\<open>line[j + 1]\<close>, which is \<^verbatim>\<open>undefined\<close> at the
  end of the line. After a merge the extra \<^verbatim>\<open>j++\<close> skips \<open>nextTile\<close>.
\<close>

fun process_line :: "bool \<Rightarrow> int \<Rightarrow> int \<Rightarrow> Tile list \<Rightarrow> line_state \<Rightarrow> line_state" where
  "process_line isH i step [] st = st"
| "process_line isH i step [tile] st = shift_branch isH i step tile st"
| "process_line isH i step (tile # nextTile # rest) st =
     (if tvalue tile = tvalue nextTile
      then process_line isH i step rest (merge_branch isH i step tile st)
      else process_line isH i step (nextTile # rest) (shift_branch isH i step tile st))"

text \<open>
  One round of the outer loop (lines 161-214) on the variables
  \<open>(newTiles, counter, totalPoints, moved)\<close>. The comparator of \<^verbatim>\<open>line.sort\<close>
  orders by position, ascending or (when \<open>reverse\<close>) descending; the sort is stable.
\<close>

definition linePos :: "direction \<Rightarrow> Tile \<Rightarrow> int" where
  "linePos d t = (if isHorizontal d then tcol t else trow t)"

definition sortLine :: "direction \<Rightarrow> Tile list \<Rightarrow> Tile list" where
  "sortLine d line = sort_key (\<lambda>t. if reverse d then - linePos d t else linePos d t) line"

definition move_line ::
  "direction \<Rightarrow> Tile list \<Rightarrow> nat \<Rightarrow> Tile list \<times> nat \<times> int \<times> bool \<Rightarrow> Tile list \<times> nat \<times> int \<times> bool" where
  "move_line d currentTiles i st =
     (case st of (newTiles, counter, totalPoints, moved) \<Rightarrow>
        (let line = filter (\<lambda>t. if isHorizontal d then trow t = int i else tcol t = int i) currentTiles
         in if length line = 0 then (newTiles, counter, totalPoints, moved)
            else
              (let line' = sortLine d line;
                   pos = (if reverse d then int GRID_SIZE - 1 else 0);
                   step = (if reverse d then - 1 else 1);
                   (processedLine, pos', counter', totalPoints', moved') =
                      process_line (isHorizontal d) (int i) step line' ([], pos, counter, totalPoints, moved)
               in (newTiles @ processedLine, counter', totalPoints', moved'))))"

text \<open>
  The slide and merge part of \<^verbatim>\<open>move\<close> (lines 152-214): the values of
  \<open>(newTiles, tileIdCounter.current, totalPoints, moved)\<close> when line 216 is reached.
\<close>

definition move_transform_tiles ::
  "direction \<Rightarrow> Tile list \<Rightarrow> nat \<Rightarrow> Tile list \<times> nat \<times> int \<times> bool" where
  "move_transform_tiles d tiles counter =
     (let currentTiles = map (\<lambda>t. t\<lparr> isNew := Some False, isMerged := Some False \<rparr>) tiles
      in fold (move_line d currentTiles) [0..<GRID_SIZE] ([], counter, 0, False))"

text \<open>
  The component state of \<^verbatim>\<open>part_000\<close> (lines 34-44). \<open>ts_timers\<close> holds the
  callbacks handed to \<^verbatim>\<open>setTimeout\<close> that have not run yet, each with the values
  its closure captured.
\<close>

record pending =
  p_newTiles :: "Tile list"
  p_totalPoints :: int
  p_bestScore :: int
  p_won :: bool

record tile_state =
  ts_tiles :: "Tile list"
  ts_score :: int
  ts_bestScore :: int
  ts_gameOver :: bool
  ts_won :: bool
  ts_isAnimating :: bool
  ts_tileIdCounter :: nat
  ts_stored :: "int option"
  ts_timers :: "pending list"

text \<open>The synchronous part of \<^verbatim>\<open>move\<close> (lines 149-222, 250-252).\<close>

definition move_tiles :: "direction \<Rightarrow> tile_state \<Rightarrow> tile_state" where
  "move_tiles d s =
     (if ts_gameOver s \<or> ts_isAnimating s then s
      else
        (let (newTiles, counter', totalPoints, moved) =
                move_transform_tiles d (ts_tiles s) (ts_tileIdCounter s)
         in if \<not> moved then s\<lparr> ts_tileIdCounter := counter' \<rparr>
            else s\<lparr> ts_tileIdCounter := counter',
                    ts_isAnimating := True,
                    ts_tiles := newTiles,
                    ts_timers := ts_timers s @
                       [\<lparr> p_newTiles = newTiles, p_totalPoints = totalPoints,
                          p_bestScore = ts_bestScore s, p_won = ts_won s \<rparr>] \<rparr>))"

text \<open>The callback of \<^verbatim>\<open>setTimeout\<close> (lines 222-250), run for the oldest pending timer.\<close>

definition timer_fires :: "real \<Rightarrow> real \<Rightarrow> tile_state \<Rightarrow> tile_state" where
  "timer_fires rnd1 rnd2 s =
     (case ts_timers s of
        [] \<Rightarrow> s
      | p # timers \<Rightarrow>
          (let (finalTiles, counter') =
                  addRandomTile_tiles rnd1 rnd2 (p_newTiles p, ts_tileIdCounter s);
               newScore = ts_score s + p_totalPoints p
           in s\<lparr> ts_tileIdCounter := counter',
                 ts_won := (if hasReachedTarget finalTiles \<and> \<not> p_won p then True else ts_won s),
                 ts_tiles := map (\<lambda>t. t\<lparr> isNew := Some False, isMerged := Some False \<rparr>) finalTiles,
                 ts_score := newScore,
                 ts_bestScore := (if newScore > p_bestScore p then newScore else ts_bestScore s),
                 ts_stored := (if newScore > p_bestScore p then Some newScore else ts_stored s),
                 ts_gameOver := (if \<not> canMove_tiles finalTiles then True else ts_gameOver s),
                 ts_isAnimating := False,
                 ts_timers := timers \<rparr>))"

subsection \<open>Notions of the specification\<close>

text \<open>
  The merge rule in the specification's words: scanning front to back, if the current
  tile's value equals the very next tile's value, both are replaced by a single tile
  of double the value, that doubled value is added to the line's point total, and the
  scan advances past both source tiles. \<open>merged\<close> is the resulting line, \<open>merge_points\<close>
  the point total.
\<close>

fun merged :: "int list \<Rightarrow> int list" where
  "merged (a # b # rest) = (if a = b then (2 * a) # merged rest else a # merged (b # rest))"
| "merged xs = xs"

fun merge_points :: "int list \<Rightarrow> int" where
  "merge_points (a # b # rest) =
     (if a = b then 2 * a + merge_points rest else merge_points (b # rest))"
| "merge_points xs = 0"

text \<open>The tiles of a line: its nonzero cells, in order.\<close>

abbreviation tiles_of :: "int list \<Rightarrow> int list" where
  "tiles_of row \<equiv> filter (\<lambda>val. val \<noteq> 0) row"

text \<open>
  The number of merges a line undergoes in \<^verbatim>\<open>slideLeft\<close>: every merge removes one
  tile (the \<^verbatim>\<open>splice\<close>), so it is the number of tiles lost.
\<close>

definition merge_count :: "int list \<Rightarrow> nat" where
  "merge_count row = length (tiles_of row) - length (tiles_of (fst (slideLeft row)))"

text \<open>
  The contiguous equal runs of a line, each as the pair of its value and its length,
  and what the merge rule makes of one run of \<open>k\<close> tiles of value \<open>v\<close>.
\<close>

function runs :: "int list \<Rightarrow> (int \<times> nat) list" where
  "runs [] = []"
| "runs (x # xs) =
     (x, Suc (length (takeWhile (\<lambda>y. y = x) xs))) # runs (dropWhile (\<lambda>y. y = x) xs)"
  by pat_completeness auto
termination
  by (relation "measure length") (auto simp: length_dropWhile_le le_imp_less_Suc)

definition merge_run :: "int \<times> nat \<Rightarrow> int list" where
  "merge_run r = (case r of (v, k) \<Rightarrow> replicate (k div 2) (2 * v) @ replicate (k mod 2) v)"

text \<open>
  A tile list that represents a board: every tile lies inside the grid, no two tiles
  share a cell, and no tile has the value \<open>0\<close> (the value of an empty cell).
\<close>

definition tile_cell :: "Tile \<Rightarrow> int \<times> int" where
  "tile_cell t = (trow t, tcol t)"

definition wf_tiles :: "Tile list \<Rightarrow> bool" where
  "wf_tiles ts \<longleftrightarrow>
     distinct (map tile_cell ts)
     \<and> list_all (\<lambda>t. 0 \<le> trow t \<and> trow t < int GRID_SIZE \<and> 0 \<le> tcol t \<and> tcol t < int GRID_SIZE
                     \<and> tvalue t \<noteq> 0) ts"

text \<open>
  \<^verbatim>\<open>canMove\<close> in the specification's words: an empty cell exists, or two horizontally
  or vertically adjacent cells hold equal nonzero values.
\<close>

definition spec_canMove :: "grid \<Rightarrow> bool" where
  "spec_canMove g \<longleftrightarrow>
     (\<exists>i<GRID_SIZE. \<exists>j<GRID_SIZE. g ! i ! j = 0)
     \<or> (\<exists>i<GRID_SIZE. \<exists>j<GRID_SIZE - 1. g ! i ! j \<noteq> 0 \<and> g ! i ! j = g ! i ! (j + 1))
     \<or> (\<exists>i<GRID_SIZE - 1. \<exists>j<GRID_SIZE. g ! i ! j \<noteq> 0 \<and> g ! i ! j = g ! (i + 1) ! j)"

text \<open>A board filled with two values in a checkerboard pattern.\<close>

definition checkerboard :: "int \<Rightarrow> int \<Rightarrow> grid" where
  "checkerboard a b = [[a, b, a, b], [b, a, b, a], [a, b, a, b], [b, a, b, a]]"

text \<open>Reading a decimal numeral back, to show that printing loses nothing.\<close>

definition digitVal :: "char \<Rightarrow> nat" where
  "digitVal ch = of_char ch - 48"

definition decimalVal :: "string \<Rightarrow> nat" where
  "decimalVal s = foldl (\<lambda>a ch. 10 * a + digitVal ch) 0 s"

text \<open>
  The lines of a board in a move: its rows for \<open>Left\<close> and \<open>Right\<close>, its columns for
  \<open>Up\<close> and \<open>Down\<close>; and the transform of one line: \<^verbatim>\<open>slideLeft\<close> for \<open>Left\<close> and
  \<open>Up\<close>, and for \<open>Right\<close> and \<open>Down\<close> the line is reversed, slid and reversed back.
\<close>

definition grid_line :: "direction \<Rightarrow> grid \<Rightarrow> nat \<Rightarrow> int list" where
  "grid_line d g i = (if isHorizontal d then g ! i else getColumn g i)"

definition slide_line :: "direction \<Rightarrow> int list \<Rightarrow> int list \<times> int" where
  "slide_line d line =
     (if reverse d then (rev (fst (slideLeft (rev line))), snd (slideLeft (rev line)))
      else slideLeft line)"

text \<open>Writing a line back into the board (a row assignment, or \<open>setColumn\<close>).\<close>

definition set_line :: "direction \<Rightarrow> grid \<Rightarrow> nat \<Rightarrow> int list \<Rightarrow> grid" where
  "set_line d g i line = (if isHorizontal d then g[i := line] else setColumn g i line)"

text \<open>
  For the tile-list version: the index of the line a tile lies in (its row for a
  horizontal move, its column for a vertical one; \<open>linePos\<close> above is its position
  within that line), the effect of \<^verbatim>\<open>tilesToGrid\<close> on one line of the board, and
  the line of index \<open>i\<close> as the outer loop of \<^verbatim>\<open>move\<close> sorts it.
\<close>

definition lineIdx :: "direction \<Rightarrow> Tile \<Rightarrow> int" where
  "lineIdx d t = (if isHorizontal d then trow t else tcol t)"

definition place_in_line :: "direction \<Rightarrow> Tile \<Rightarrow> int list \<Rightarrow> int list" where
  "place_in_line d t line =
     (if 0 \<le> linePos d t \<and> linePos d t < 4 then line[nat (linePos d t) := tvalue t] else line)"

abbreviation line_in :: "direction \<Rightarrow> Tile list \<Rightarrow> nat \<Rightarrow> Tile list" where
  "line_in d cur i \<equiv> sortLine d (filter (\<lambda>t. lineIdx d t = int i) cur)"

text \<open>The tiles of a line lie inside the grid and are not empty cells.\<close>

definition line_ok :: "direction \<Rightarrow> Tile list \<Rightarrow> bool" where
  "line_ok d L \<longleftrightarrow> (\<forall>t\<in>set L. 0 \<le> linePos d t \<and> linePos d t < 4 \<and> tvalue t \<noteq> 0)"

text \<open>
  What one round of the outer loop appends for line \<open>i\<close>: tiles of that line, with
  the merged values, packed from the edge of travel.
\<close>

definition line_out :: "direction \<Rightarrow> Tile list \<Rightarrow> int \<Rightarrow> Tile list \<Rightarrow> bool" where
  "line_out d line i P \<longleftrightarrow>
     map tvalue P = merged (map tvalue line)
     \<and> (\<forall>t\<in>set P. lineIdx d t = i)
     \<and> (\<forall>k<length P. linePos d (P ! k) =
           (if reverse d then int GRID_SIZE - 1 - int k else int k))"

text \<open>The reset of the animation flags at line 152.\<close>

abbreviation clearFlags :: "Tile \<Rightarrow> Tile" where
  "clearFlags t \<equiv> t\<lparr> isNew := Some False, isMerged := Some False \<rparr>"

text \<open>
  A tile at rest, as line 248 leaves every tile once a move is over: both animation
  flags are \<^verbatim>\<open>false\<close>. \<open>tile n v r c\<close> has identifier \<open>n\<close>, value \<open>v\<close>, row \<open>r\<close> and
  column \<open>c\<close>.
\<close>

definition tile :: "nat \<Rightarrow> int \<Rightarrow> int \<Rightarrow> int \<Rightarrow> Tile" where
  "tile n v r c =
     \<lparr> tid = n, tvalue = v, trow = r, tcol = c, isNew = Some False, isMerged = Some False \<rparr>"

text \<open>
  The invariant of the tile-list version's state: the tiles on display and the tiles
  held by every pending timer represent boards.
\<close>

definition tiles_invariant :: "tile_state \<Rightarrow> bool" where
  "tiles_invariant s \<longleftrightarrow>
     wf_tiles (ts_tiles s) \<and> (\<forall>p\<in>set (ts_timers s). wf_tiles (p_newTiles p))"

text \<open>The position of a tile in its line, counted from the edge of travel.\<close>

definition travelPos :: "direction \<Rightarrow> Tile \<Rightarrow> int" where
  "travelPos d t = (if reverse d then int GRID_SIZE - 1 - linePos d t else linePos d t)"

section \<open>Verification\<close>

subsection \<open>Comparing joined strings is comparing the arrays\<close>

lemma digitVal_digitChar: "k < 10 \<Longrightarrow> digitVal (digitChar k) = k"
  by (simp add: digitVal_def digitChar_def)

lemma decimalVal_snoc: "decimalVal (s @ [ch]) = 10 * decimalVal s + digitVal ch"
  by (simp add: decimalVal_def)

lemma decimalVal_digits: "decimalVal (digits n) = n"
proof (induction n rule: digits.induct)
  case (1 n)
  show ?case
  proof (cases "n < 10")
    case True
    then show ?thesis
      by (subst digits.simps) (simp add: decimalVal_def digitVal_digitChar)
  next
    case False
    then show ?thesis
      using 1 by (subst digits.simps) (simp add: decimalVal_snoc digitVal_digitChar)
  qed
qed

lemma digitChar_plain: "k < 10 \<Longrightarrow> digitChar k \<noteq> CHR '','' \<and> digitChar k \<noteq> CHR ''-''"
proof -
  assume "k < 10"
  then have "digitVal (digitChar k) = k"
    by (rule digitVal_digitChar)
  moreover have "digitVal CHR '','' = 0 \<and> digitVal CHR ''-'' = 0"
    by (simp add: digitVal_def)
  moreover have "digitChar 0 \<noteq> CHR '','' \<and> digitChar 0 \<noteq> CHR ''-''"
    by (simp add: digitChar_def char_of_def)
  ultimately show ?thesis
    by (cases "k = 0") auto
qed

lemma digits_plain: "CHR '','' \<notin> set (digits n) \<and> CHR ''-'' \<notin> set (digits n) \<and> digits n \<noteq> []"
proof (induction n rule: digits.induct)
  case (1 n)
  show ?case
  proof (cases "n < 10")
    case True
    then show ?thesis
      using digitChar_plain[of n] by (subst (1 2 3) digits.simps) auto
  next
    case False
    then show ?thesis
      using 1 digitChar_plain[of "n mod 10"] by (subst (1 2 3) digits.simps) auto
  qed
qed

lemma numberToString_inj: "numberToString m = numberToString n \<Longrightarrow> m = n"
proof -
  assume eq: "numberToString m = numberToString n"
  have hd: "hd (digits k) \<noteq> CHR ''-''" for k
    using digits_plain[of k] by (cases "digits k") auto
  show "m = n"
  proof (cases "m < 0"; cases "n < 0")
    assume "m < 0" "n < 0"
    then have "digits (nat (- m)) = digits (nat (- n))"
      using eq by (simp add: numberToString_def)
    then have "nat (- m) = nat (- n)"
      by (metis decimalVal_digits)
    then show ?thesis using \<open>m < 0\<close> \<open>n < 0\<close> by simp
  next
    assume "m < 0" "\<not> n < 0"
    then have "CHR ''-'' # digits (nat (- m)) = digits (nat n)"
      using eq by (simp add: numberToString_def)
    then show ?thesis using hd[of "nat n"] by (metis list.sel(1))
  next
    assume "\<not> m < 0" "n < 0"
    then have "digits (nat m) = CHR ''-'' # digits (nat (- n))"
      using eq by (simp add: numberToString_def)
    then show ?thesis using hd[of "nat m"] by (metis list.sel(1))
  next
    assume "\<not> m < 0" "\<not> n < 0"
    then have "digits (nat m) = digits (nat n)"
      using eq by (simp add: numberToString_def)
    then have "nat m = nat n"
      by (metis decimalVal_digits)
    then show ?thesis using \<open>\<not> m < 0\<close> \<open>\<not> n < 0\<close> by simp
  qed
qed

lemma numberToString_plain: "CHR '','' \<notin> set (numberToString n) \<and> numberToString n \<noteq> []"
  using digits_plain[of "nat n"] digits_plain[of "nat (- n)"] by (simp add: numberToString_def)

lemma joinComma_Cons:
  "joinComma (x # xs) = numberToString x @ (if xs = [] then [] else CHR '','' # joinComma xs)"
  by (cases xs) simp_all

lemma append_comma_unique:
  assumes "CHR '','' \<notin> set a" "CHR '','' \<notin> set b"
    and "a @ u = b @ v"
    and "u = [] \<or> hd u = CHR '',''" "v = [] \<or> hd v = CHR '',''"
  shows "a = b \<and> u = v"
proof -
  have "takeWhile (\<lambda>ch. ch \<noteq> CHR '','') (a @ u) = a"
    using assms(1,4) by (cases u) (auto simp: takeWhile_append2 takeWhile_tail)
  moreover have "takeWhile (\<lambda>ch. ch \<noteq> CHR '','') (b @ v) = b"
    using assms(2,5) by (cases v) (auto simp: takeWhile_append2 takeWhile_tail)
  ultimately have "a = b"
    using assms(3) by simp
  then show ?thesis
    using assms(3) by simp
qed

lemma joinComma_inj: "joinComma xs = joinComma ys \<longleftrightarrow> xs = ys"
proof
  show "joinComma xs = joinComma ys \<Longrightarrow> xs = ys"
  proof (induction xs arbitrary: ys)
    case Nil
    then show ?case
      using numberToString_plain by (cases ys) (auto simp: joinComma_Cons)
  next
    case (Cons x xs)
    show ?case
    proof (cases ys)
      case Nil
      then show ?thesis
        using Cons.prems numberToString_plain by (auto simp: joinComma_Cons)
    next
      case (Cons y ys')
      let ?u = "if xs = [] then [] else CHR '','' # joinComma xs"
      let ?v = "if ys' = [] then [] else CHR '','' # joinComma ys'"
      have "numberToString x @ ?u = numberToString y @ ?v"
        using Cons.prems Cons by (simp only: joinComma_Cons)
      then have "numberToString x = numberToString y \<and> ?u = ?v"
        using numberToString_plain by (intro append_comma_unique) auto
      then have "x = y" and uv: "?u = ?v"
        by (auto dest: numberToString_inj)
      have "joinComma xs = joinComma ys'"
      proof (cases "xs = []"; cases "ys' = []")
        assume "xs \<noteq> []" "ys' \<noteq> []"
        then show ?thesis using uv by simp
      qed (use uv in \<open>auto split: if_splits\<close>)
      then have "xs = ys'"
        by (rule Cons.IH)
      then show ?thesis
        using \<open>x = y\<close> Cons by simp
    qed
  qed
qed auto

subsection \<open>The merge loop of \<^verbatim>\<open>slideLeft\<close> is the specification's merge rule\<close>

lemma drop_two:
  "Suc i < length arr \<Longrightarrow> drop i arr = arr ! i # arr ! Suc i # drop (Suc (Suc i)) arr"
  by (simp add: Cons_nth_drop_Suc Suc_lessD)

lemma merged_short: "length xs \<le> 1 \<Longrightarrow> merged xs = xs"
  by (cases xs; cases "tl xs") auto

lemma merge_points_short: "length xs \<le> 1 \<Longrightarrow> merge_points xs = 0"
  by (cases xs; cases "tl xs") auto

lemma slide_loop_eq:
  "slide_loop arr i p = (take i arr @ merged (drop i arr), p + merge_points (drop i arr))"
proof (induction arr i p rule: slide_loop.induct)
  case (1 arr i points)
  show ?case
  proof (cases "Suc i < length arr")
    case False
    then have "length (drop i arr) \<le> 1"
      by simp
    then have "merged (drop i arr) = drop i arr" "merge_points (drop i arr) = 0"
      by (simp_all add: merged_short merge_points_short)
    then show ?thesis using False
      by (subst slide_loop.simps) simp
  next
    case True
    then have True': "i + 1 < length arr"
      by simp
    note d = drop_two[OF True]
    show ?thesis
    proof (cases "arr ! i = arr ! Suc i")
      case False
      then have False': "arr ! i \<noteq> arr ! (i + 1)"
        by simp
      have t: "take (Suc i) arr = take i arr @ [arr ! i]"
        using True by (simp add: take_Suc_conv_app_nth)
      have d1: "drop (Suc i) arr = arr ! Suc i # drop (Suc (Suc i)) arr"
        using True by (simp add: Cons_nth_drop_Suc)
      have "slide_loop arr i points = slide_loop arr (Suc i) points"
        using True False by (subst slide_loop.simps) simp
      also have "\<dots> = (take (Suc i) arr @ merged (drop (Suc i) arr),
                       points + merge_points (drop (Suc i) arr))"
        using "1.IH"(2)[OF True' False'] by simp
      also have "\<dots> = (take i arr @ merged (drop i arr), points + merge_points (drop i arr))"
        using False by (simp add: t d1 d)
      finally show ?thesis .
    next
      case eq: True
      then have eq': "arr ! i = arr ! (i + 1)"
        by simp
      define arr2 where
        "arr2 = take (Suc i) (arr[i := arr ! i * 2]) @ drop (Suc (Suc i)) (arr[i := arr ! i * 2])"
      have t: "take (Suc i) arr2 = take i arr @ [2 * arr ! i]"
        using True by (simp add: arr2_def take_Suc_conv_app_nth)
      have dd: "drop (Suc i) arr2 = drop (Suc (Suc i)) arr"
        using True by (simp add: arr2_def)
      have "slide_loop arr i points = slide_loop arr2 (Suc i) (points + 2 * arr ! i)"
        using True eq by (subst slide_loop.simps) (simp add: arr2_def Let_def mult.commute)
      also have "\<dots> = (take (Suc i) arr2 @ merged (drop (Suc i) arr2),
                       points + 2 * arr ! i + merge_points (drop (Suc i) arr2))"
        using "1.IH"(1)[OF True' eq' refl refl refl] True by (simp add: arr2_def mult.commute)
      also have "\<dots> = (take i arr @ merged (drop i arr), points + merge_points (drop i arr))"
        using eq by (simp add: t dd d)
      finally show ?thesis .
    qed
  qed
qed

lemma slideLeft_eq:
  "slideLeft row =
     (merged (tiles_of row) @ replicate (GRID_SIZE - length (merged (tiles_of row))) 0,
      merge_points (tiles_of row))"
  by (simp add: slideLeft_def slide_loop_eq Let_def)

subsection \<open>Runs of equal tiles\<close>

lemma merged_nonzero: "0 \<notin> set xs \<Longrightarrow> 0 \<notin> set (merged xs)"
  by (induction xs rule: merged.induct) auto

lemma length_merged_le: "length (merged xs) \<le> length xs"
  by (induction xs rule: merged.induct) auto

lemma sum_merged: "sum_list (merged xs) = sum_list xs"
  by (induction xs rule: merged.induct) auto

lemma merged_replicate:
  "ys = [] \<or> hd ys \<noteq> x \<Longrightarrow>
   merged (replicate k x @ ys) = replicate (k div 2) (2 * x) @ replicate (k mod 2) x @ merged ys"
proof (induction k rule: less_induct)
  case (less k)
  consider "k = 0" | "k = 1" | m where "k = Suc (Suc m)"
    by (metis One_nat_def not0_implies_Suc)
  then show ?case
  proof cases
    case 1
    then show ?thesis by simp
  next
    case 2
    then show ?thesis using less.prems by (cases ys) auto
  next
    case 3
    then show ?thesis using less.IH[of m] less.prems by simp
  qed
qed

lemma merge_points_replicate:
  "ys = [] \<or> hd ys \<noteq> x \<Longrightarrow>
   merge_points (replicate k x @ ys) = 2 * x * int (k div 2) + merge_points ys"
proof (induction k rule: less_induct)
  case (less k)
  consider "k = 0" | "k = 1" | m where "k = Suc (Suc m)"
    by (metis One_nat_def not0_implies_Suc)
  then show ?case
  proof cases
    case 1
    then show ?thesis by simp
  next
    case 2
    then show ?thesis using less.prems by (cases ys) auto
  next
    case 3
    then show ?thesis using less.IH[of m] less.prems by (simp add: algebra_simps)
  qed
qed

lemma split_run:
  "x # xs = replicate (Suc (length (takeWhile (\<lambda>y. y = x) xs))) x @ dropWhile (\<lambda>y. y = x) xs"
proof -
  have "takeWhile (\<lambda>y. y = x) xs = replicate (length (takeWhile (\<lambda>y. y = x) xs)) x"
    by (metis (mono_tags, lifting) replicate_length_same set_takeWhileD)
  then show ?thesis
    by (metis replicate_Suc append_Cons takeWhile_dropWhile_id)
qed

lemma dropWhile_head: "dropWhile (\<lambda>y. y = x) xs = [] \<or> hd (dropWhile (\<lambda>y. y = x) xs) \<noteq> x"
  by (metis (full_types) hd_dropWhile)

lemma merged_runs: "merged xs = concat (map merge_run (runs xs))"
proof (induction xs rule: runs.induct)
  case 1
  show ?case by simp
next
  case (2 x xs)
  have "merged (x # xs) = merged (replicate (Suc (length (takeWhile (\<lambda>y. y = x) xs))) x @ dropWhile (\<lambda>y. y = x) xs)"
    using split_run[of x xs] by simp
  also have "\<dots> = merge_run (x, Suc (length (takeWhile (\<lambda>y. y = x) xs))) @ merged (dropWhile (\<lambda>y. y = x) xs)"
    by (subst merged_replicate[OF dropWhile_head]) (simp add: merge_run_def)
  finally show ?case using 2 by simp
qed

lemma merge_points_runs: "merge_points xs = (\<Sum>(v, k) \<leftarrow> runs xs. 2 * v * int (k div 2))"
proof (induction xs rule: runs.induct)
  case 1
  show ?case by simp
next
  case (2 x xs)
  have "merge_points (x # xs) = merge_points (replicate (Suc (length (takeWhile (\<lambda>y. y = x) xs))) x @ dropWhile (\<lambda>y. y = x) xs)"
    using split_run[of x xs] by simp
  also have "\<dots> = 2 * x * int (Suc (length (takeWhile (\<lambda>y. y = x) xs)) div 2) + merge_points (dropWhile (\<lambda>y. y = x) xs)"
    by (rule merge_points_replicate[OF dropWhile_head])
  finally show ?case using 2 by simp
qed

lemma length_merged_runs: "length xs = length (merged xs) + (\<Sum>(v, k) \<leftarrow> runs xs. k div 2)"
proof (induction xs rule: runs.induct)
  case 1
  show ?case by simp
next
  case (2 x xs)
  let ?k = "Suc (length (takeWhile (\<lambda>y. y = x) xs))"
  let ?d = "dropWhile (\<lambda>y. y = x) xs"
  have "merged (x # xs) = merged (replicate ?k x @ ?d)"
    using split_run[of x xs] by simp
  also have "\<dots> = replicate (?k div 2) (2 * x) @ replicate (?k mod 2) x @ merged ?d"
    by (rule merged_replicate[OF dropWhile_head])
  finally have "length (merged (x # xs)) = ?k div 2 + ?k mod 2 + length (merged ?d)"
    by simp
  moreover have "length (x # xs) = ?k + length ?d"
    by (metis split_run length_append length_replicate)
  moreover have "?k = 2 * (?k div 2) + ?k mod 2" by simp
  ultimately show ?case using 2 by simp presburger
qed

lemma tiles_of_slideLeft: "tiles_of (fst (slideLeft row)) = merged (tiles_of row)"
proof -
  have "0 \<notin> set (merged (tiles_of row))"
    by (rule merged_nonzero) simp
  then have "tiles_of (merged (tiles_of row)) = merged (tiles_of row)"
    by (auto simp: filter_id_conv) 
  then show ?thesis by (simp add: slideLeft_eq)
qed

lemma merge_count_runs: "merge_count row = (\<Sum>(v, k) \<leftarrow> runs (tiles_of row). k div 2)"
  using length_merged_runs[of "tiles_of row"] by (simp add: merge_count_def tiles_of_slideLeft)

subsection \<open>The inner loop of the tile-list version follows the same rule\<close>

lemma process_line_values:
  "map tvalue (fst (process_line isH i step line st)) =
     map tvalue (fst st) @ merged (map tvalue line)"
proof (induction isH i step line st rule: process_line.induct)
  case (1 isH i step st)
  show ?case by simp
next
  case (2 isH i step tile st)
  show ?case by (cases st) (simp add: shift_branch_def Let_def)
next
  case (3 isH i step tile nextTile rest st)
  show ?case
  proof (cases "tvalue tile = tvalue nextTile")
    case True
    then show ?thesis using 3(1)[OF True]
      by (cases st) (simp add: merge_branch_def Let_def)
  next
    case False
    then show ?thesis using 3(2)[OF False]
      by (cases st) (simp add: shift_branch_def Let_def)
  qed
qed

lemma process_line_points:
  "fst (snd (snd (snd (process_line isH i step line st)))) =
     fst (snd (snd (snd st))) + merge_points (map tvalue line)"
proof (induction isH i step line st rule: process_line.induct)
  case (1 isH i step st)
  show ?case by simp
next
  case (2 isH i step tile st)
  show ?case by (cases st) (simp add: shift_branch_def Let_def)
next
  case (3 isH i step tile nextTile rest st)
  show ?case
  proof (cases "tvalue tile = tvalue nextTile")
    case True
    then show ?thesis using 3(1)[OF True]
      by (cases st) (simp add: merge_branch_def Let_def)
  next
    case False
    then show ?thesis using 3(2)[OF False]
      by (cases st) (simp add: shift_branch_def Let_def)
  qed
qed

subsection \<open>Boards and their lines\<close>

lemma upt4: "[0..<4] = [0, 1, 2, 3]"
  by (simp add: upt_rec)

lemma all_less4: "(\<forall>i<4. P i) \<longleftrightarrow> P (0::nat) \<and> P 1 \<and> P 2 \<and> P 3"
proof
  assume "\<forall>i<4. P i"
  then show "P 0 \<and> P 1 \<and> P 2 \<and> P 3" by simp
next
  assume a: "P 0 \<and> P 1 \<and> P 2 \<and> P 3"
  show "\<forall>i<4. P i"
  proof (intro allI impI)
    fix i :: nat assume "i < 4"
    then have "i = 0 \<or> i = 1 \<or> i = 2 \<or> i = 3" by auto
    then show "P i" using a by auto
  qed
qed

lemma ex_less4: "(\<exists>i<4. P i) \<longleftrightarrow> P (0::nat) \<or> P 1 \<or> P 2 \<or> P 3"
  using all_less4[of "\<lambda>i. \<not> P i"] by blast

lemma less4_cases: "i < 4 \<Longrightarrow> i = (0::nat) \<or> i = 1 \<or> i = 2 \<or> i = 3"
  by auto

lemma is_board_length: "is_board g \<Longrightarrow> length g = 4"
  by (simp add: is_board_def)

lemma is_board_row: "is_board g \<Longrightarrow> i < 4 \<Longrightarrow> length (g ! i) = 4"
  by (simp add: is_board_def list_all_length)

lemma is_boardI: "length g = 4 \<Longrightarrow> (\<And>i. i < 4 \<Longrightarrow> length (g ! i) = 4) \<Longrightarrow> is_board g"
  by (simp add: is_board_def list_all_length)

lemma list4: "length xs = 4 \<Longrightarrow> xs = [xs ! 0, xs ! 1, xs ! 2, xs ! 3]"
  by (rule nth_equalityI) (auto simp: nth_Cons' dest: less4_cases)

lemma length_slideLeft: "length row \<le> 4 \<Longrightarrow> length (fst (slideLeft row)) = 4"
proof -
  assume "length row \<le> 4"
  moreover have "length (merged (tiles_of row)) \<le> length (tiles_of row)"
    by (rule length_merged_le)
  moreover have "length (tiles_of row) \<le> length row"
    by simp
  ultimately have "length (merged (tiles_of row)) \<le> 4"
    by linarith
  then show ?thesis
    by (simp add: slideLeft_eq)
qed

lemma length_slide_line: "length line = 4 \<Longrightarrow> length (fst (slide_line d line)) = 4"
  by (simp add: slide_line_def length_slideLeft)

lemma setColumn_nth:
  "is_board g \<Longrightarrow> r < 4 \<Longrightarrow> setColumn g c col ! r = (g ! r)[c := col ! r]"
  by (auto simp: setColumn_def upt4 is_board_def dest!: less4_cases)

lemma length_setColumn: "length (setColumn g c col) = length g"
  by (simp add: setColumn_def upt4)

lemma is_board_setColumn: "is_board g \<Longrightarrow> is_board (setColumn g c col)"
  by (rule is_boardI) (simp_all add: length_setColumn is_board_length setColumn_nth is_board_row)

lemma getColumn_setColumn:
  "is_board g \<Longrightarrow> length col = 4 \<Longrightarrow> c < 4 \<Longrightarrow>
   getColumn (setColumn g c col) c' = (if c' = c then col else getColumn g c')"
proof -
  assume b: "is_board g" and l: "length col = 4" and c: "c < 4"
  have "col = [col ! 0, col ! 1, col ! 2, col ! 3]"
    using l by (rule list4)
  then have "map (\<lambda>r. col ! r) [0, 1, 2, 3] = col"
    by simp
  then show ?thesis
    using b c by (simp add: getColumn_def upt4 setColumn_nth is_board_row)
qed

lemma move_body_eq:
  "i < length G \<Longrightarrow>
   move_body d i (G, t, m) =
     (set_line d G i (fst (slide_line d (grid_line d G i))),
      t + snd (slide_line d (grid_line d G i)),
      m \<or> grid_line d G i \<noteq> fst (slide_line d (grid_line d G i)))"
  by (cases d)
     (auto simp: set_line_def slide_line_def grid_line_def isHorizontal_def reverse_def
                 Let_def split_def joinComma_inj)

lemma is_board_set_line:
  "is_board G \<Longrightarrow> length line = 4 \<Longrightarrow> is_board (set_line d G i line)"
proof (cases "isHorizontal d")
  case True
  assume "is_board G" "length line = 4"
  then show ?thesis using True
    by (cases "i < length G")
       (auto simp: set_line_def is_board_def list_all_length nth_list_update)
next
  case False
  assume "is_board G"
  then show ?thesis using False
    by (simp add: set_line_def is_board_setColumn)
qed

lemma grid_line_set_line:
  "is_board G \<Longrightarrow> length line = 4 \<Longrightarrow> i < 4 \<Longrightarrow> j < 4 \<Longrightarrow>
   grid_line d (set_line d G i line) j = (if j = i then line else grid_line d G j)"
  by (simp add: grid_line_def set_line_def getColumn_setColumn is_board_length)

lemma length_grid_line: "is_board G \<Longrightarrow> i < 4 \<Longrightarrow> length (grid_line d G i) = 4"
  by (simp add: grid_line_def is_board_row getColumn_def)

lemma fold_move_body:
  "is_board G \<Longrightarrow> distinct js \<Longrightarrow> set js \<subseteq> {..<4} \<Longrightarrow>
   (case fold (move_body d) js (G, t, m) of (G', t', m') \<Rightarrow>
      is_board G'
      \<and> (\<forall>j<4. grid_line d G' j =
            (if j \<in> set js then fst (slide_line d (grid_line d G j)) else grid_line d G j))
      \<and> t' = t + (\<Sum>i\<leftarrow>js. snd (slide_line d (grid_line d G i)))
      \<and> m' = (m \<or> (\<exists>i\<in>set js. grid_line d G i \<noteq> fst (slide_line d (grid_line d G i)))))"
proof (induction js arbitrary: G t m)
  case Nil
  then show ?case by simp
next
  case (Cons i js)
  let ?L = "fst (slide_line d (grid_line d G i))"
  let ?G1 = "set_line d G i ?L"
  have i: "i < 4" and nin: "i \<notin> set js" and d: "distinct js" and sub: "set js \<subseteq> {..<4}"
    using Cons.prems by auto
  have lenL: "length ?L = 4"
    using Cons.prems(1) i by (simp add: length_slide_line length_grid_line)
  have b1: "is_board ?G1"
    using Cons.prems(1) lenL by (rule is_board_set_line)
  have same: "grid_line d ?G1 j = grid_line d G j" if "j \<in> set js" for j
    using that nin sub grid_line_set_line[OF Cons.prems(1) lenL i, of j d] by auto
  have step: "fold (move_body d) (i # js) (G, t, m) =
        fold (move_body d) js (?G1, t + snd (slide_line d (grid_line d G i)), m \<or> grid_line d G i \<noteq> ?L)"
    using i Cons.prems(1) by (simp add: move_body_eq is_board_length)
  have sum_eq: "(\<Sum>k\<leftarrow>js. snd (slide_line d (grid_line d ?G1 k))) = (\<Sum>k\<leftarrow>js. snd (slide_line d (grid_line d G k)))"
    using same by (intro arg_cong[where f=sum_list] map_cong) auto
  have ex_eq: "(\<exists>k\<in>set js. grid_line d ?G1 k \<noteq> fst (slide_line d (grid_line d ?G1 k))) =
               (\<exists>k\<in>set js. grid_line d G k \<noteq> fst (slide_line d (grid_line d G k)))"
    using same by auto
  have lines: "(if j \<in> set js then fst (slide_line d (grid_line d ?G1 j)) else grid_line d ?G1 j) =
       (if j \<in> set (i # js) then fst (slide_line d (grid_line d G j)) else grid_line d G j)" if "j < 4" for j
    using that same nin grid_line_set_line[OF Cons.prems(1) lenL i that, of d] by auto
  show ?case
    using Cons.IH[OF b1 d sub, of "t + snd (slide_line d (grid_line d G i))" "m \<or> grid_line d G i \<noteq> ?L"]
    unfolding step sum_eq ex_eq
    by (auto simp: lines split: prod.splits)
qed

subsection \<open>The grid move, line by line\<close>

lemma move_transform_grid_lines:
  assumes "is_board g"
  shows "case move_transform_grid d g of (g', pts, mv) \<Rightarrow>
      is_board g'
      \<and> (\<forall>j<4. grid_line d g' j = fst (slide_line d (grid_line d g j)))
      \<and> pts = (\<Sum>i\<leftarrow>[0..<4]. snd (slide_line d (grid_line d g i)))
      \<and> mv = (\<exists>i<4. grid_line d g i \<noteq> fst (slide_line d (grid_line d g i)))"
proof -
  have "distinct [0..<4::nat]" "set [0..<4::nat] \<subseteq> {..<4}"
    by auto
  from fold_move_body[OF assms this, of d 0 False] show ?thesis
    by (auto simp: move_transform_grid_def split: prod.splits)
qed

lemma board_eq_lines:
  assumes g: "is_board g" and h: "is_board h"
    and eq: "\<And>j. j < 4 \<Longrightarrow> grid_line d g j = grid_line d h j"
  shows "g = h"
proof (rule nth_equalityI)
  show "length g = length h"
    using g h by (simp add: is_board_length)
next
  fix i assume "i < length g"
  then have i: "i < 4" using g by (simp add: is_board_length)
  show "g ! i = h ! i"
  proof (cases "isHorizontal d")
    case True
    then show ?thesis using eq[OF i] by (simp add: grid_line_def)
  next
    case False
    show ?thesis
    proof (rule nth_equalityI)
      show "length (g ! i) = length (h ! i)"
        using g h i by (simp add: is_board_row)
    next
      fix j assume "j < length (g ! i)"
      then have j: "j < 4" using g i by (simp add: is_board_row)
      have "getColumn g j ! i = getColumn h j ! i"
        using eq[OF j] False by (simp add: grid_line_def)
      then show "g ! i ! j = h ! i ! j"
        using i by (simp add: getColumn_def del: upt_Suc)
    qed
  qed
qed

lemma sum_list_tiles_of: "sum_list (tiles_of row) = sum_list row"
  by (induction row) auto

lemma sum_list_slideLeft: "sum_list (fst (slideLeft row)) = sum_list row"
  by (simp add: slideLeft_eq sum_merged sum_list_tiles_of sum_list_replicate)

lemma sum_list_slide_line: "sum_list (fst (slide_line d line)) = sum_list line"
  by (simp add: slide_line_def sum_list_slideLeft)

lemma grid_sum_lines:
  assumes "is_board g"
  shows "grid_sum g = (\<Sum>i\<leftarrow>[0..<4]. sum_list (grid_line d g i))"
proof -
  have g: "g = [g ! 0, g ! 1, g ! 2, g ! 3]"
    using assms by (intro list4 is_board_length)
  have r: "g ! i = [g ! i ! 0, g ! i ! 1, g ! i ! 2, g ! i ! 3]" if "i < 4" for i
    using assms that by (intro list4 is_board_row)
  have rows: "grid_sum g = sum_list (g ! 0) + sum_list (g ! 1) + sum_list (g ! 2) + sum_list (g ! 3)"
    by (subst g) (simp add: grid_sum_def)
  show ?thesis
  proof (cases "isHorizontal d")
    case True
    then show ?thesis by (simp add: rows grid_line_def upt4)
  next
    case False
    have "sum_list (g ! i) = g ! i ! 0 + g ! i ! 1 + g ! i ! 2 + g ! i ! 3" if "i < 4" for i
      by (subst r[OF that]) simp
    then show ?thesis using False
      by (simp add: rows grid_line_def getColumn_def upt4)
  qed
qed

lemma merge_points_unchanged: "length (merged xs) = length xs \<Longrightarrow> merge_points xs = 0"
proof (induction xs rule: merged.induct)
  case (1 a b rest)
  show ?case
  proof (cases "a = b")
    case True
    then show ?thesis using 1(3) length_merged_le[of rest] by simp
  next
    case False
    then show ?thesis using 1 by simp
  qed
qed simp_all

lemma slideLeft_unchanged_points:
  assumes "fst (slideLeft row) = row"
  shows "snd (slideLeft row) = 0"
proof -
  have "tiles_of (fst (slideLeft row)) = merged (tiles_of row)"
    by (rule tiles_of_slideLeft)
  then have "merged (tiles_of row) = tiles_of row"
    using assms by simp
  then show ?thesis
    by (simp add: slideLeft_eq merge_points_unchanged)
qed

lemma slide_line_unchanged_points:
  assumes "fst (slide_line d line) = line"
  shows "snd (slide_line d line) = 0"
proof (cases "reverse d")
  case True
  then have "rev (fst (slideLeft (rev line))) = line"
    using assms by (simp add: slide_line_def)
  then have "fst (slideLeft (rev line)) = rev line"
    by (metis rev_rev_ident)
  then show ?thesis using True
    by (simp add: slide_line_def slideLeft_unchanged_points)
next
  case False
  then show ?thesis using assms
    by (simp add: slide_line_def slideLeft_unchanged_points)
qed

lemma move_transform_grid_board:
  "is_board g \<Longrightarrow> is_board (fst (move_transform_grid d g))"
  using move_transform_grid_lines[of g d] by (auto split: prod.splits)

lemma move_transform_grid_line:
  "is_board g \<Longrightarrow> j < 4 \<Longrightarrow>
   grid_line d (fst (move_transform_grid d g)) j = fst (slide_line d (grid_line d g j))"
  using move_transform_grid_lines[of g d] by (auto split: prod.splits)

lemma move_transform_grid_points:
  "is_board g \<Longrightarrow>
   fst (snd (move_transform_grid d g)) = (\<Sum>i\<leftarrow>[0..<4]. snd (slide_line d (grid_line d g i)))"
  using move_transform_grid_lines[of g d] by (auto split: prod.splits)

lemma move_transform_grid_moved:
  "is_board g \<Longrightarrow>
   snd (snd (move_transform_grid d g)) = (\<exists>i<4. grid_line d g i \<noteq> fst (slide_line d (grid_line d g i)))"
  using move_transform_grid_lines[of g d] by (auto split: prod.splits)

lemma moved_iff_changed_grid:
  assumes "is_board g"
  shows "snd (snd (move_transform_grid d g)) \<longleftrightarrow> fst (move_transform_grid d g) \<noteq> g"
proof
  assume "snd (snd (move_transform_grid d g))"
  then obtain i where "i < 4" "grid_line d g i \<noteq> fst (slide_line d (grid_line d g i))"
    using assms by (auto simp: move_transform_grid_moved)
  then have "grid_line d (fst (move_transform_grid d g)) i \<noteq> grid_line d g i"
    using assms by (simp add: move_transform_grid_line)
  then show "fst (move_transform_grid d g) \<noteq> g"
    by auto
next
  assume ne: "fst (move_transform_grid d g) \<noteq> g"
  show "snd (snd (move_transform_grid d g))"
  proof (rule ccontr)
    assume "\<not> snd (snd (move_transform_grid d g))"
    then have "\<And>j. j < 4 \<Longrightarrow> grid_line d (fst (move_transform_grid d g)) j = grid_line d g j"
      using assms by (simp add: move_transform_grid_moved move_transform_grid_line)
    then have "fst (move_transform_grid d g) = g"
      using assms by (intro board_eq_lines[where d=d] move_transform_grid_board)
    then show False using ne by simp
  qed
qed

lemma grid_sum_move_transform_grid:
  assumes "is_board g"
  shows "grid_sum (fst (move_transform_grid d g)) = grid_sum g"
proof -
  have "grid_sum (fst (move_transform_grid d g)) =
          (\<Sum>i\<leftarrow>[0..<4]. sum_list (grid_line d (fst (move_transform_grid d g)) i))"
    using assms by (intro grid_sum_lines move_transform_grid_board)
  also have "\<dots> = (\<Sum>i\<leftarrow>[0..<4]. sum_list (grid_line d g i))"
    using assms by (simp add: upt4 move_transform_grid_line sum_list_slide_line)
  also have "\<dots> = grid_sum g"
    using assms by (rule grid_sum_lines[symmetric])
  finally show ?thesis .
qed

lemma not_moved_no_points:
  assumes "is_board g" and "\<not> snd (snd (move_transform_grid d g))"
  shows "fst (snd (move_transform_grid d g)) = 0"
proof -
  have "\<And>i. i < 4 \<Longrightarrow> fst (slide_line d (grid_line d g i)) = grid_line d g i"
    using assms by (auto simp: move_transform_grid_moved)
  then have "\<And>i. i < 4 \<Longrightarrow> snd (slide_line d (grid_line d g i)) = 0"
    by (rule slide_line_unchanged_points)
  then show ?thesis using assms(1)
    by (simp add: move_transform_grid_points upt4)
qed

subsection \<open>The board of a tile list, line by line\<close>

lemma is_board_place_tile: "is_board G \<Longrightarrow> is_board (place_tile t G)"
  by (auto simp: place_tile_def is_board_def list_all_length nth_list_update)

lemma is_board_fold_place: "is_board G \<Longrightarrow> is_board (fold place_tile ts G)"
  by (induction ts arbitrary: G) (simp_all add: is_board_place_tile)

lemma is_board_zero: "is_board (replicate 4 (replicate 4 0))"
  by (simp add: is_board_def list_all_length)

lemma is_board_tilesToGrid: "is_board (tilesToGrid ts)"
  by (simp add: tilesToGrid_def is_board_fold_place is_board_zero)

lemma nat_less4: "0 \<le> (x::int) \<Longrightarrow> x < 4 \<Longrightarrow> nat x < 4"
  by simp

lemma getColumn_update:
  assumes "is_board G" "r < 4" "i < 4"
  shows "getColumn (G[r := (G ! r)[c := v]]) i =
           (if c = i then (getColumn G i)[r := v] else getColumn G i)"
proof -
  have "r = 0 \<or> r = 1 \<or> r = 2 \<or> r = 3"
    using assms(2) by auto
  then show ?thesis
    using assms(1,3) by (auto simp: getColumn_def upt4 is_board_def list_all_length)
qed

lemma grid_line_place_tile:
  assumes "is_board G" "i < 4"
  shows "grid_line d (place_tile t G) i =
           (if lineIdx d t = int i then place_in_line d t (grid_line d G i) else grid_line d G i)"
proof (cases "isHorizontal d")
  case True
  then show ?thesis
    using assms
    by (auto simp: grid_line_def place_tile_def lineIdx_def place_in_line_def linePos_def
                   is_board_length nth_list_update)
next
  case False
  then show ?thesis
    using assms
    by (auto simp: grid_line_def place_tile_def lineIdx_def place_in_line_def linePos_def
                   getColumn_update nat_less4)
qed

lemma grid_line_fold_place:
  "is_board G \<Longrightarrow> i < 4 \<Longrightarrow>
   grid_line d (fold place_tile ts G) i =
     fold (place_in_line d) (filter (\<lambda>t. lineIdx d t = int i) ts) (grid_line d G i)"
proof (induction ts arbitrary: G)
  case Nil
  then show ?case by simp
next
  case (Cons t ts)
  then show ?case
    by (simp add: is_board_place_tile grid_line_place_tile)
qed

lemma replicate4: "replicate 4 x = [x, x, x, x]"
  by (simp add: numeral_eq_Suc)

lemma grid_line_zero: "i < 4 \<Longrightarrow> grid_line d (replicate 4 (replicate 4 0)) i = replicate 4 0"
  by (auto simp: grid_line_def getColumn_def upt4 replicate4 dest!: less4_cases)

lemma grid_line_tilesToGrid:
  "i < 4 \<Longrightarrow>
   grid_line d (tilesToGrid ts) i =
     fold (place_in_line d) (filter (\<lambda>t. lineIdx d t = int i) ts) (replicate 4 0)"
  by (simp add: tilesToGrid_def grid_line_fold_place is_board_zero grid_line_zero)

lemma place_in_line_commute:
  "linePos d s \<noteq> linePos d t \<Longrightarrow>
   place_in_line d s (place_in_line d t line) = place_in_line d t (place_in_line d s line)"
  by (auto simp: place_in_line_def list_update_swap)

lemma fold_place_sortLine:
  assumes "inj_on (linePos d) (set line)"
  shows "fold (place_in_line d) (sortLine d line) row = fold (place_in_line d) line row"
proof -
  have "place_in_line d x \<circ> place_in_line d y = place_in_line d y \<circ> place_in_line d x"
    if "x \<in> set (sortLine d line)" "y \<in> set (sortLine d line)" for x y
  proof (cases "x = y")
    case True
    then show ?thesis by simp
  next
    case False
    then have "linePos d x \<noteq> linePos d y"
      using that assms by (auto simp: sortLine_def inj_on_def)
    then show ?thesis
      by (auto simp: fun_eq_iff place_in_line_commute)
  qed
  moreover have "mset (sortLine d line) = mset line"
    by (simp add: sortLine_def)
  ultimately have "fold (place_in_line d) (sortLine d line) = fold (place_in_line d) line"
    by (rule fold_multiset_equiv)
  then show ?thesis by simp
qed

lemma tiles_of_zeros: "(\<And>x. x \<in> set xs \<Longrightarrow> x = 0) \<Longrightarrow> tiles_of xs = []"
  by (induction xs) auto

lemma tiles_of_update_last:
  assumes p: "p < length row" and z: "\<And>k. p \<le> k \<Longrightarrow> k < length row \<Longrightarrow> row ! k = 0"
    and v: "v \<noteq> 0"
  shows "tiles_of (row[p := v]) = tiles_of row @ [v]"
proof -
  have d0: "tiles_of (drop p row) = []"
    by (rule tiles_of_zeros) (use z in \<open>auto simp: in_set_conv_nth\<close>)
  have d1: "tiles_of (drop (Suc p) row) = []"
    by (rule tiles_of_zeros) (use z in \<open>auto simp: in_set_conv_nth\<close>)
  have "tiles_of row = tiles_of (take p row @ drop p row)"
    by simp
  also have "\<dots> = tiles_of (take p row)"
    unfolding filter_append d0 by simp
  finally have r: "tiles_of row = tiles_of (take p row)" .
  have "tiles_of (row[p := v]) = tiles_of (take p row @ v # drop (Suc p) row)"
    using p by (simp add: upd_conv_take_nth_drop)
  also have "\<dots> = tiles_of (take p row) @ [v]"
    using v d1 by simp
  finally show ?thesis using r by simp
qed

lemma tiles_of_update_first:
  assumes p: "p < length row" and z: "\<And>k. k \<le> p \<Longrightarrow> row ! k = 0" and v: "v \<noteq> 0"
  shows "tiles_of (row[p := v]) = v # tiles_of row"
proof -
  have t0: "tiles_of (take p row) = []"
    by (rule tiles_of_zeros) (use z p in \<open>auto simp: in_set_conv_nth\<close>)
  have "row = take p row @ row ! p # drop (Suc p) row"
    using p by (simp add: id_take_nth_drop)
  then have "tiles_of row = tiles_of (take p row @ row ! p # drop (Suc p) row)"
    by simp
  also have "\<dots> = tiles_of (drop (Suc p) row)"
    unfolding filter_append t0 using z[of p] by simp
  finally have r: "tiles_of row = tiles_of (drop (Suc p) row)" .
  have "tiles_of (row[p := v]) = tiles_of (take p row @ v # drop (Suc p) row)"
    using p by (simp add: upd_conv_take_nth_drop)
  also have "\<dots> = v # tiles_of (drop (Suc p) row)"
    unfolding filter_append t0 using v by simp
  finally show ?thesis using r by simp
qed

lemma tiles_of_fold_asc:
  "sorted_wrt (<) (map (linePos d) L) \<Longrightarrow> line_ok d L \<Longrightarrow> length row = 4 \<Longrightarrow>
   (\<And>t k. t \<in> set L \<Longrightarrow> nat (linePos d t) \<le> k \<Longrightarrow> k < 4 \<Longrightarrow> row ! k = 0) \<Longrightarrow>
   tiles_of (fold (place_in_line d) L row) = tiles_of row @ map tvalue L"
proof (induction L arbitrary: row)
  case Nil
  then show ?case by simp
next
  case (Cons t L)
  let ?p = "nat (linePos d t)"
  let ?row = "row[?p := tvalue t]"
  have t: "0 \<le> linePos d t" "linePos d t < 4" "tvalue t \<noteq> 0"
    using Cons.prems(2) by (auto simp: line_ok_def)
  have step: "place_in_line d t row = ?row"
    using t by (simp add: place_in_line_def)
  have upd: "tiles_of ?row = tiles_of row @ [tvalue t]"
    using t Cons.prems(3) Cons.prems(4)[of t] by (intro tiles_of_update_last) auto
  have "tiles_of (fold (place_in_line d) L ?row) = tiles_of ?row @ map tvalue L"
  proof (rule Cons.IH)
    show "sorted_wrt (<) (map (linePos d) L)"
      using Cons.prems(1) by simp
    show "line_ok d L"
      using Cons.prems(2) by (simp add: line_ok_def)
    show "length ?row = 4"
      using Cons.prems(3) by simp
    fix s k assume s: "s \<in> set L" and k: "nat (linePos d s) \<le> k" "k < 4"
    have "linePos d t < linePos d s"
      using Cons.prems(1) s by auto
    then have "?p < k" using k t by linarith
    then show "?row ! k = 0"
      using Cons.prems(4)[of t k] k by simp
  qed
  then show ?case
    by (simp add: step upd)
qed

lemma tiles_of_fold_desc:
  "sorted_wrt (>) (map (linePos d) L) \<Longrightarrow> line_ok d L \<Longrightarrow> length row = 4 \<Longrightarrow>
   (\<And>t k. t \<in> set L \<Longrightarrow> k \<le> nat (linePos d t) \<Longrightarrow> row ! k = 0) \<Longrightarrow>
   tiles_of (fold (place_in_line d) L row) = rev (map tvalue L) @ tiles_of row"
proof (induction L arbitrary: row)
  case Nil
  then show ?case by simp
next
  case (Cons t L)
  let ?p = "nat (linePos d t)"
  let ?row = "row[?p := tvalue t]"
  have t: "0 \<le> linePos d t" "linePos d t < 4" "tvalue t \<noteq> 0"
    using Cons.prems(2) by (auto simp: line_ok_def)
  have step: "place_in_line d t row = ?row"
    using t by (simp add: place_in_line_def)
  have upd: "tiles_of ?row = tvalue t # tiles_of row"
    using t Cons.prems(3) Cons.prems(4)[of t] by (intro tiles_of_update_first) auto
  have "tiles_of (fold (place_in_line d) L ?row) = rev (map tvalue L) @ tiles_of ?row"
  proof (rule Cons.IH)
    show "sorted_wrt (>) (map (linePos d) L)"
      using Cons.prems(1) by simp
    show "line_ok d L"
      using Cons.prems(2) by (simp add: line_ok_def)
    show "length ?row = 4"
      using Cons.prems(3) by simp
    fix s k assume s: "s \<in> set L" and k: "k \<le> nat (linePos d s)"
    have "linePos d s < linePos d t"
      using Cons.prems(1) s by auto
    moreover have "0 \<le> linePos d s"
      using Cons.prems(2) s by (simp add: line_ok_def)
    ultimately have "k < ?p" using k t by linarith
    then show "?row ! k = 0"
      using Cons.prems(4)[of t k] by simp
  qed
  then show ?case
    by (simp add: step upd)
qed

lemma fold_place_asc_run:
  "(\<And>k. k < length P \<Longrightarrow> linePos d (P ! k) = int a + int k) \<Longrightarrow> a + length P \<le> 4 \<Longrightarrow>
   length row = 4 \<Longrightarrow>
   fold (place_in_line d) P row = take a row @ map tvalue P @ drop (a + length P) row"
proof (induction P arbitrary: a row)
  case Nil
  then show ?case by simp
next
  case (Cons t P)
  have pos: "linePos d t = int a"
    using Cons.prems(1)[of 0] by simp
  have rest: "linePos d (P ! k) = int (Suc a) + int k" if "k < length P" for k
    using Cons.prems(1)[of "Suc k"] that by simp
  have a: "a < 4" using Cons.prems(2) by simp
  have step: "place_in_line d t row = row[a := tvalue t]"
    using a by (simp add: place_in_line_def pos)
  have "fold (place_in_line d) P (row[a := tvalue t]) =
          take (Suc a) (row[a := tvalue t]) @ map tvalue P @ drop (Suc a + length P) (row[a := tvalue t])"
    using rest Cons.prems(2,3) by (intro Cons.IH) simp_all
  also have "\<dots> = take a row @ [tvalue t] @ map tvalue P @ drop (Suc a + length P) row"
    using a Cons.prems(3) by (simp add: take_Suc_conv_app_nth)
  finally show ?case
    by (simp add: step)
qed

lemma fold_place_desc_run:
  "(\<And>k. k < length P \<Longrightarrow> linePos d (P ! k) = int b - 1 - int k) \<Longrightarrow> length P \<le> b \<Longrightarrow> b \<le> 4 \<Longrightarrow>
   length row = 4 \<Longrightarrow>
   fold (place_in_line d) P row = take (b - length P) row @ rev (map tvalue P) @ drop b row"
proof (induction P arbitrary: b row)
  case Nil
  then show ?case by simp
next
  case (Cons t P)
  obtain c where b: "b = Suc c"
    using Cons.prems(2) by (cases b) auto
  have pos: "linePos d t = int c"
    using Cons.prems(1)[of 0] by (simp add: b)
  have rest: "linePos d (P ! k) = int c - 1 - int k" if "k < length P" for k
    using Cons.prems(1)[of "Suc k"] that by (simp add: b)
  have c: "c < 4" using Cons.prems(3) b by simp
  have step: "place_in_line d t row = row[c := tvalue t]"
    using c by (simp add: place_in_line_def pos)
  have "fold (place_in_line d) P (row[c := tvalue t]) =
          take (c - length P) (row[c := tvalue t]) @ rev (map tvalue P) @ drop c (row[c := tvalue t])"
    using rest Cons.prems(2,3,4) b by (intro Cons.IH) simp_all
  also have "\<dots> = take (c - length P) row @ rev (map tvalue P) @ [tvalue t] @ drop (Suc c) row"
    using c Cons.prems(4) by (simp add: upd_conv_take_nth_drop)
  finally show ?case
    by (simp add: step b)
qed

subsection \<open>The tile-list move, line by line\<close>

lemma process_line_out:
  "\<exists>P. fst (process_line (isHorizontal d) i step line st) = fst st @ P
       \<and> map tvalue P = merged (map tvalue line)
       \<and> (\<forall>t\<in>set P. lineIdx d t = i)
       \<and> (\<forall>k<length P. linePos d (P ! k) = fst (snd st) + step * int k)"
proof (induction "isHorizontal d" i step line st rule: process_line.induct)
  case (1 i step st)
  show ?case by simp
next
  case (2 i step tile st)
  obtain acc pos c p m where st: "st = (acc, pos, c, p, m)"
    by (cases st)
  show ?case
    by (rule exI[of _ "[tile\<lparr> trow := (if isHorizontal d then i else pos),
                              tcol := (if isHorizontal d then pos else i) \<rparr>]"])
       (simp add: st shift_branch_def Let_def lineIdx_def linePos_def)
next
  case (3 i step tile nextTile rest st)
  obtain acc pos c p m where st: "st = (acc, pos, c, p, m)"
    by (cases st)
  show ?case
  proof (cases "tvalue tile = tvalue nextTile")
    case True
    define mt where "mt = \<lparr> tid = c + 1, tvalue = tvalue tile * 2,
        trow = (if isHorizontal d then i else pos), tcol = (if isHorizontal d then pos else i),
        isNew = None, isMerged = Some True \<rparr>"
    define st' where "st' = merge_branch (isHorizontal d) i step tile st"
    have st': "fst st' = acc @ [mt]" "fst (snd st') = pos + step"
      by (simp_all add: st'_def st merge_branch_def Let_def mt_def)
    obtain P where P: "fst (process_line (isHorizontal d) i step rest st') = fst st' @ P"
        "map tvalue P = merged (map tvalue rest)" "\<forall>t\<in>set P. lineIdx d t = i"
        "\<forall>k<length P. linePos d (P ! k) = fst (snd st') + step * int k"
      using 3(1)[OF True] unfolding st'_def by blast
    have pos: "linePos d ((mt # P) ! k) = pos + step * int k" if "k < length (mt # P)" for k
    proof (cases k)
      case 0
      then show ?thesis by (simp add: mt_def linePos_def)
    next
      case (Suc k')
      then show ?thesis using P(4) that st'(2) by (simp add: algebra_simps)
    qed
    have "process_line (isHorizontal d) i step (tile # nextTile # rest) st =
          process_line (isHorizontal d) i step rest st'"
      using True by (simp add: st'_def)
    then have "fst (process_line (isHorizontal d) i step (tile # nextTile # rest) st) = fst st @ mt # P"
      using P(1) st'(1) by (simp add: st)
    moreover have "map tvalue (mt # P) = merged (map tvalue (tile # nextTile # rest))"
      using True P(2) by (simp add: mt_def)
    moreover have "\<forall>t\<in>set (mt # P). lineIdx d t = i"
      using P(3) by (simp add: mt_def lineIdx_def)
    ultimately show ?thesis
      using pos unfolding st by (intro exI[of _ "mt # P"]) simp
  next
    case False
    define nt where "nt = tile\<lparr> trow := (if isHorizontal d then i else pos),
                              tcol := (if isHorizontal d then pos else i) \<rparr>"
    define st' where "st' = shift_branch (isHorizontal d) i step tile st"
    have st': "fst st' = acc @ [nt]" "fst (snd st') = pos + step"
      by (simp_all add: st'_def st shift_branch_def Let_def nt_def)
    obtain P where P: "fst (process_line (isHorizontal d) i step (nextTile # rest) st') = fst st' @ P"
        "map tvalue P = merged (map tvalue (nextTile # rest))" "\<forall>t\<in>set P. lineIdx d t = i"
        "\<forall>k<length P. linePos d (P ! k) = fst (snd st') + step * int k"
      using 3(2)[OF False] unfolding st'_def by blast
    have pos: "linePos d ((nt # P) ! k) = pos + step * int k" if "k < length (nt # P)" for k
    proof (cases k)
      case 0
      then show ?thesis by (simp add: nt_def linePos_def)
    next
      case (Suc k')
      then show ?thesis using P(4) that st'(2) by (simp add: algebra_simps)
    qed
    have "process_line (isHorizontal d) i step (tile # nextTile # rest) st =
          process_line (isHorizontal d) i step (nextTile # rest) st'"
      using False by (simp add: st'_def)
    then have "fst (process_line (isHorizontal d) i step (tile # nextTile # rest) st) = fst st @ nt # P"
      using P(1) st'(1) by (simp add: st)
    moreover have "map tvalue (nt # P) = merged (map tvalue (tile # nextTile # rest))"
      using False P(2) by (simp add: nt_def)
    moreover have "\<forall>t\<in>set (nt # P). lineIdx d t = i"
      using P(3) by (simp add: nt_def lineIdx_def)
    ultimately show ?thesis
      using pos unfolding st by (intro exI[of _ "nt # P"]) simp
  qed
qed

lemma move_line_eq:
  "move_line d cur i (acc, c, p, m) =
     (case process_line (isHorizontal d) (int i) (if reverse d then - 1 else 1) (line_in d cur i)
             ([], if reverse d then int GRID_SIZE - 1 else 0, c, p, m)
      of (P, pos', c', p', m') \<Rightarrow> (acc @ P, c', p', m'))"
proof -
  have f: "filter (\<lambda>t. if isHorizontal d then trow t = int i else tcol t = int i) cur =
           filter (\<lambda>t. lineIdx d t = int i) cur"
    by (simp add: lineIdx_def)
  show ?thesis
  proof (cases "filter (\<lambda>t. lineIdx d t = int i) cur = []")
    case True
    then show ?thesis
      by (simp add: move_line_def f sortLine_def)
  next
    case False
    then show ?thesis
      by (simp add: move_line_def f Let_def)
  qed
qed

lemma move_line_out:
  "\<exists>P. fst (move_line d cur i (acc, c, p, m)) = acc @ P \<and> line_out d (line_in d cur i) (int i) P"
proof -
  define pos0 :: int where "pos0 = (if reverse d then int GRID_SIZE - 1 else 0)"
  define step :: int where "step = (if reverse d then - 1 else 1)"
  define r where "r = process_line (isHorizontal d) (int i) step (line_in d cur i) ([], pos0, c, p, m)"
  from process_line_out[of d "int i" step "line_in d cur i" "([], pos0, c, p, m)"]
  obtain P where P: "fst r = P"
      "map tvalue P = merged (map tvalue (line_in d cur i))" "\<forall>t\<in>set P. lineIdx d t = int i"
      "\<forall>k<length P. linePos d (P ! k) = pos0 + step * int k"
    unfolding r_def fst_conv snd_conv append_Nil by blast
  have "move_line d cur i (acc, c, p, m) =
      (case r of (P, pos', c', p', m') \<Rightarrow> (acc @ P, c', p', m'))"
    unfolding r_def pos0_def step_def by (rule move_line_eq)
  then have "fst (move_line d cur i (acc, c, p, m)) = acc @ P"
    using P(1) by (cases r) simp
  moreover have "linePos d (P ! k) = (if reverse d then int GRID_SIZE - 1 - int k else int k)"
    if "k < length P" for k
    using P(4) that by (simp add: pos0_def step_def)
  then have "line_out d (line_in d cur i) (int i) P"
    using P(2,3) by (simp add: line_out_def)
  ultimately show ?thesis by blast
qed

lemma move_line_points:
  "fst (snd (snd (move_line d cur i (acc, c, p, m)))) =
     p + merge_points (map tvalue (line_in d cur i))"
proof -
  define r where "r = process_line (isHorizontal d) (int i) (if reverse d then - 1 else 1)
          (line_in d cur i) ([], if reverse d then int GRID_SIZE - 1 else 0, c, p, m)"
  have "fst (snd (snd (snd r))) = p + merge_points (map tvalue (line_in d cur i))"
    unfolding r_def by (simp add: process_line_points)
  moreover have "move_line d cur i (acc, c, p, m) =
      (case r of (P, pos', c', p', m') \<Rightarrow> (acc @ P, c', p', m'))"
    unfolding r_def by (rule move_line_eq)
  ultimately show ?thesis
    by (cases r) simp
qed

lemma fold_move_line_points:
  "fst (snd (snd (fold (move_line d cur) js (acc, c, p, m)))) =
     p + (\<Sum>i\<leftarrow>js. merge_points (map tvalue (line_in d cur i)))"
proof (induction js arbitrary: acc c p m)
  case Nil
  show ?case by simp
next
  case (Cons i js)
  obtain acc' c' p' m' where s: "move_line d cur i (acc, c, p, m) = (acc', c', p', m')"
    by (cases "move_line d cur i (acc, c, p, m)")
  have "p' = p + merge_points (map tvalue (line_in d cur i))"
    using move_line_points[of d cur i acc c p m] by (simp add: s)
  then show ?case
    using Cons.IH[of acc' c' p' m'] by (simp add: s)
qed

lemma fold_move_line_out:
  assumes "distinct js"
  shows "\<exists>P. filter (\<lambda>t. lineIdx d t = int j) (fst (fold (move_line d cur) js (acc, c, p, m))) =
               filter (\<lambda>t. lineIdx d t = int j) acc @ P
            \<and> (if j \<in> set js then line_out d (line_in d cur j) (int j) P else P = [])"
  using assms
proof (induction js arbitrary: acc c p m)
  case Nil
  show ?case by simp
next
  case (Cons i js)
  obtain acc' c' p' m' where s: "move_line d cur i (acc, c, p, m) = (acc', c', p', m')"
    by (cases "move_line d cur i (acc, c, p, m)")
  obtain Pi where Pi: "acc' = acc @ Pi" "line_out d (line_in d cur i) (int i) Pi"
    using move_line_out[of d cur i acc c p m] by (auto simp: s)
  have fPi: "filter (\<lambda>t. lineIdx d t = int j) Pi = (if j = i then Pi else [])"
    using Pi(2) by (auto simp: line_out_def filter_id_conv filter_empty_conv)
  obtain P where P: "filter (\<lambda>t. lineIdx d t = int j) (fst (fold (move_line d cur) js (acc', c', p', m'))) =
               filter (\<lambda>t. lineIdx d t = int j) acc' @ P"
      "if j \<in> set js then line_out d (line_in d cur j) (int j) P else P = []"
    using Cons.IH[of acc' c' p' m'] Cons.prems by auto
  show ?case
  proof (cases "j = i")
    case True
    then have "P = []" using P(2) Cons.prems by auto
    moreover have "filter (\<lambda>t. lineIdx d t = int j) Pi = Pi"
      by (subst fPi) (simp add: True)
    ultimately have "filter (\<lambda>t. lineIdx d t = int j) (fst (fold (move_line d cur) (i # js) (acc, c, p, m))) =
               filter (\<lambda>t. lineIdx d t = int j) acc @ Pi"
      using P(1) by (simp add: s Pi(1))
    moreover have "line_out d (line_in d cur j) (int j) Pi"
      using Pi(2) True by simp
    moreover have "j \<in> set (i # js)"
      using True by simp
    ultimately show ?thesis
      by (intro exI[of _ Pi]) (simp only: if_True simp_thms)
  next
    case False
    then have "filter (\<lambda>t. lineIdx d t = int j) Pi = []"
      by (simp add: fPi)
    then have "filter (\<lambda>t. lineIdx d t = int j) (fst (fold (move_line d cur) (i # js) (acc, c, p, m))) =
               filter (\<lambda>t. lineIdx d t = int j) acc @ P"
      using P(1) by (simp add: s Pi(1))
    moreover have "if j \<in> set (i # js) then line_out d (line_in d cur j) (int j) P else P = []"
      using P(2) False by simp
    ultimately show ?thesis
      by (intro exI[of _ P] conjI)
  qed
qed

lemma wf_line_inj:
  assumes "wf_tiles cur"
  shows "inj_on (linePos d) (set (filter (\<lambda>t. lineIdx d t = i) cur))"
proof (rule inj_onI)
  fix s t
  assume s: "s \<in> set (filter (\<lambda>t. lineIdx d t = i) cur)"
    and t: "t \<in> set (filter (\<lambda>t. lineIdx d t = i) cur)"
    and eq: "linePos d s = linePos d t"
  have "inj_on tile_cell (set cur)"
    using assms by (simp add: wf_tiles_def distinct_map)
  moreover have "tile_cell s = tile_cell t"
    using s t eq by (auto simp: tile_cell_def lineIdx_def linePos_def split: if_splits)
  ultimately show "s = t"
    using s t by (auto dest: inj_onD)
qed

lemma wf_line_distinct:
  assumes "wf_tiles cur"
  shows "distinct (filter (\<lambda>t. lineIdx d t = i) cur)"
  using assms by (simp add: wf_tiles_def distinct_map)

lemma wf_line_ok:
  assumes "wf_tiles cur"
  shows "line_ok d (filter (\<lambda>t. lineIdx d t = i) cur)"
  using assms by (auto simp: wf_tiles_def line_ok_def list_all_iff linePos_def)

lemma line_ok_sortLine: "line_ok d (sortLine d line) = line_ok d line"
  by (simp add: line_ok_def sortLine_def)

lemma replicate_nth_zero: "k < 4 \<Longrightarrow> replicate 4 (0::int) ! k = 0"
  by simp

lemma input_values:
  assumes wf: "wf_tiles cur" and j: "j < 4"
  shows "map tvalue (line_in d cur j) =
           tiles_of (if reverse d then rev (grid_line d (tilesToGrid cur) j)
                     else grid_line d (tilesToGrid cur) j)"
proof -
  let ?line = "filter (\<lambda>t. lineIdx d t = int j) cur"
  let ?L = "sortLine d ?line"
  let ?z = "replicate 4 (0::int)"
  have inj: "inj_on (linePos d) (set ?line)"
    using wf by (rule wf_line_inj)
  have dist: "distinct (map (linePos d) ?L)"
    using inj wf_line_distinct[OF wf, of d "int j"] by (simp add: distinct_map sortLine_def)
  have ok: "line_ok d ?L"
    using wf by (simp add: line_ok_sortLine wf_line_ok)
  have g: "grid_line d (tilesToGrid cur) j = fold (place_in_line d) ?L ?z"
    using j inj by (simp add: grid_line_tilesToGrid fold_place_sortLine)
  show ?thesis
  proof (cases "reverse d")
    case False
    have "sorted (map (linePos d) ?L)"
      using False sorted_sort_key[of "linePos d" ?line] by (simp add: sortLine_def)
    then have "sorted_wrt (<) (map (linePos d) ?L)"
      using dist by (simp add: strict_sorted_iff)
    then have "tiles_of (fold (place_in_line d) ?L ?z) = tiles_of ?z @ map tvalue ?L"
      using ok by (rule tiles_of_fold_asc) simp_all
    then show ?thesis
      using False by (simp add: g)
  next
    case True
    have "sorted (map (\<lambda>t. - linePos d t) ?L)"
      using True sorted_sort_key[of "\<lambda>t. - linePos d t" ?line] by (simp add: sortLine_def)
    moreover have "distinct (map (\<lambda>t. - linePos d t) ?L)"
      using dist by (simp add: distinct_map inj_on_def)
    ultimately have "sorted_wrt (<) (map (\<lambda>t. - linePos d t) ?L)"
      by (simp add: strict_sorted_iff)
    then have "sorted_wrt (>) (map (linePos d) ?L)"
      by (simp add: sorted_wrt_map)
    moreover have "?z ! k = 0" if "t \<in> set ?L" "k \<le> nat (linePos d t)" for t k
    proof -
      have "linePos d t < 4"
        using ok that(1) by (simp add: line_ok_def)
      then have "k < 4" using that(2) by linarith
      then show ?thesis by simp
    qed
    ultimately have "tiles_of (fold (place_in_line d) ?L ?z) = rev (map tvalue ?L) @ tiles_of ?z"
      using ok by (intro tiles_of_fold_desc) simp_all
    then have "tiles_of (grid_line d (tilesToGrid cur) j) = rev (map tvalue ?L)"
      by (simp add: g)
    then have "tiles_of (rev (grid_line d (tilesToGrid cur) j)) = map tvalue ?L"
      by (simp add: rev_filter[symmetric])
    then show ?thesis
      using True by simp
  qed
qed

lemma output_line:
  assumes out: "line_out d L i P" and len: "length P \<le> 4"
  shows "fold (place_in_line d) P (replicate 4 0) =
           (if reverse d then rev (map tvalue P @ replicate (4 - length P) 0)
            else map tvalue P @ replicate (4 - length P) 0)"
proof (cases "reverse d")
  case False
  have "fold (place_in_line d) P (replicate 4 0) =
          take 0 (replicate 4 0) @ map tvalue P @ drop (0 + length P) (replicate 4 0)"
    using out len False by (intro fold_place_asc_run) (simp_all add: line_out_def)
  then show ?thesis
    using False by simp
next
  case True
  have "fold (place_in_line d) P (replicate 4 0) =
          take (4 - length P) (replicate 4 0) @ rev (map tvalue P) @ drop 4 (replicate 4 0)"
    using out len True by (intro fold_place_desc_run) (simp_all add: line_out_def)
  then show ?thesis
    using True len by (simp add: min_def)
qed

lemma slide_line_eq:
  "fst (slide_line d line) =
     (let w = merged (tiles_of (if reverse d then rev line else line))
      in if reverse d then rev (w @ replicate (4 - length w) 0) else w @ replicate (4 - length w) 0)"
  "snd (slide_line d line) = merge_points (tiles_of (if reverse d then rev line else line))"
  by (simp_all add: slide_line_def slideLeft_eq Let_def)

subsection \<open>The tile-list move computes the board and points of the grid move\<close>

lemma tiles_line_result:
  assumes wf: "wf_tiles cur" and j: "j < 4"
  shows "grid_line d (tilesToGrid (fst (fold (move_line d cur) [0..<4] ([], c, 0, False)))) j =
           fst (slide_line d (grid_line d (tilesToGrid cur) j))"
proof -
  let ?new = "fst (fold (move_line d cur) [0..<4] ([], c, 0, False))"
  let ?line = "grid_line d (tilesToGrid cur) j"
  let ?ord = "if reverse d then rev ?line else ?line"
  obtain P where P: "filter (\<lambda>t. lineIdx d t = int j) ?new = P"
      "line_out d (line_in d cur j) (int j) P"
    using fold_move_line_out[of "[0..<4]" d j cur "[]" c 0 False] j by auto
  have vals: "map tvalue P = merged (tiles_of ?ord)"
    using P(2) input_values[OF wf j, of d] by (simp add: line_out_def)
  have "length ?line = 4"
    using j by (simp add: length_grid_line is_board_tilesToGrid)
  then have "length (tiles_of ?ord) \<le> 4"
    by (metis (full_types) length_filter_le length_rev)
  then have "length (merged (tiles_of ?ord)) \<le> 4"
    using length_merged_le[of "tiles_of ?ord"] by linarith
  then have len: "length P \<le> 4"
    using vals by (metis length_map)
  have "grid_line d (tilesToGrid ?new) j = fold (place_in_line d) P (replicate 4 0)"
    using j P(1) by (simp add: grid_line_tilesToGrid)
  also have "\<dots> = (if reverse d then rev (map tvalue P @ replicate (4 - length P) 0)
                     else map tvalue P @ replicate (4 - length P) 0)"
    using P(2) len by (rule output_line)
  also have "\<dots> = fst (slide_line d ?line)"
  proof -
    have "length P = length (merged (tiles_of ?ord))"
      using vals by (metis length_map)
    then show ?thesis
      unfolding slide_line_eq Let_def vals by simp
  qed
  finally show ?thesis .
qed

lemma tiles_points_result:
  assumes wf: "wf_tiles cur"
  shows "fst (snd (snd (fold (move_line d cur) [0..<4] ([], c, 0, False)))) =
           (\<Sum>i\<leftarrow>[0..<4]. snd (slide_line d (grid_line d (tilesToGrid cur) i)))"
proof -
  have "merge_points (map tvalue (line_in d cur i)) =
          snd (slide_line d (grid_line d (tilesToGrid cur) i))" if "i < 4" for i
    using input_values[OF wf that, of d] by (simp add: slide_line_eq)
  then have "(\<Sum>i\<leftarrow>[0..<4]. merge_points (map tvalue (line_in d cur i))) =
             (\<Sum>i\<leftarrow>[0..<4]. snd (slide_line d (grid_line d (tilesToGrid cur) i)))"
    by (intro arg_cong[where f=sum_list] map_cong) auto
  then show ?thesis
    by (simp add: fold_move_line_points)
qed

lemma wf_tiles_clearFlags: "wf_tiles (map clearFlags ts) = wf_tiles ts"
proof -
  have "tile_cell \<circ> clearFlags = tile_cell"
    by (simp add: fun_eq_iff tile_cell_def)
  then show ?thesis
    by (simp add: wf_tiles_def list_all_iff)
qed

lemma place_tile_clearFlags: "place_tile (clearFlags t) g = place_tile t g"
  by (simp add: place_tile_def)

lemma tilesToGrid_clearFlags: "tilesToGrid (map clearFlags ts) = tilesToGrid ts"
proof -
  have "(\<lambda>t. place_tile (clearFlags t)) = place_tile"
    by (simp add: fun_eq_iff place_tile_clearFlags)
  then show ?thesis
    by (simp add: tilesToGrid_def fold_map comp_def)
qed

lemma move_tiles_refines_grid:
  assumes "wf_tiles ts"
  shows "tilesToGrid (fst (move_transform_tiles d ts c)) = fst (move_transform_grid d (tilesToGrid ts))"
    and "fst (snd (snd (move_transform_tiles d ts c))) = fst (snd (move_transform_grid d (tilesToGrid ts)))"
proof -
  let ?cur = "map clearFlags ts"
  have wf: "wf_tiles ?cur"
    using assms by (simp add: wf_tiles_clearFlags)
  have new: "move_transform_tiles d ts c = fold (move_line d ?cur) [0..<4] ([], c, 0, False)"
    by (simp add: move_transform_tiles_def)
  show "tilesToGrid (fst (move_transform_tiles d ts c)) = fst (move_transform_grid d (tilesToGrid ts))"
  proof (rule board_eq_lines[where d=d])
    show "is_board (tilesToGrid (fst (move_transform_tiles d ts c)))"
      by (rule is_board_tilesToGrid)
    show "is_board (fst (move_transform_grid d (tilesToGrid ts)))"
      by (simp add: move_transform_grid_board is_board_tilesToGrid)
    fix j :: nat assume j: "j < 4"
    show "grid_line d (tilesToGrid (fst (move_transform_tiles d ts c))) j =
          grid_line d (fst (move_transform_grid d (tilesToGrid ts))) j"
      using tiles_line_result[OF wf j, of d c] j
      by (simp add: new move_transform_grid_line is_board_tilesToGrid tilesToGrid_clearFlags)
  qed
  show "fst (snd (snd (move_transform_tiles d ts c))) = fst (snd (move_transform_grid d (tilesToGrid ts)))"
    using tiles_points_result[OF wf, of d c]
    by (simp add: new move_transform_grid_points is_board_tilesToGrid tilesToGrid_clearFlags)
qed

subsection \<open>Claims C3 and C4: merging within one line\<close>

text \<open>
  Claim C4: within a single move a tile that results from a merge is never merged
  again. The merge loop of \<^verbatim>\<open>slideLeft\<close> is the specification's scan, in which a
  merged tile of value \<open>2 * v\<close> arises from two source tiles of value \<open>v\<close> and the scan
  goes on behind both; in particular, after merging the first two tiles of a line the
  loop continues on the rest of the line alone, whatever that rest is. The inner loop
  of the tile-list version yields the same values and points. The line \<open>[0,2,2,4]\<close>
  moved left becomes \<open>[4,4,0,0]\<close> with 4 points, not \<open>[8,0,0,0]\<close>.
\<close>

theorem no_chain_merges:
  "slideLeft row =
     (merged (tiles_of row) @ replicate (GRID_SIZE - length (merged (tiles_of row))) 0,
      merge_points (tiles_of row))
   \<and> slide_loop (v # v # rest) 0 0 =
       (2 * v # fst (slide_loop rest 0 0), 2 * v + snd (slide_loop rest 0 0))
   \<and> map tvalue (fst (process_line isH i step line ([], pos, counter, 0, moved))) =
       merged (map tvalue line)
   \<and> fst (snd (snd (snd (process_line isH i step line ([], pos, counter, 0, moved))))) =
       merge_points (map tvalue line)
   \<and> slideLeft [0, 2, 2, 4] = ([4, 4, 0, 0], 4)
   \<and> fst (slideLeft [0, 2, 2, 4]) \<noteq> [8, 0, 0, 0]"
proof -
  have "slide_loop (v # v # rest) 0 0 =
          (2 * v # fst (slide_loop rest 0 0), 2 * v + snd (slide_loop rest 0 0))"
    by (simp add: slide_loop_eq)
  moreover have "slideLeft [0, 2, 2, 4] = ([4, 4, 0, 0], 4)"
    by code_simp
  ultimately show ?thesis
    by (simp add: slideLeft_eq process_line_values process_line_points)
qed

text \<open>
  Claim C3, as stated, fails: a line of four equal values is one contiguous equal run
  and undergoes two merges, not one.
\<close>

theorem one_merge_per_run_counterexample:
  "runs [2, 2, 2, 2] = [(2, 4)]
   \<and> merge_count [2, 2, 2, 2] = 2
   \<and> slideLeft [2, 2, 2, 2] = ([4, 4, 0, 0], 8)"
  by code_simp

text \<open>
  Claim C3, amended: a contiguous equal run of \<open>k\<close> tiles of value \<open>v\<close> becomes
  \<open>k div 2\<close> tiles of value \<open>2 * v\<close>, followed by one tile of value \<open>v\<close> when \<open>k\<close> is odd:
  it undergoes \<open>k div 2\<close> merges, each worth \<open>2 * v\<close> points. So a run of three undergoes
  exactly one merge (the line \<open>[2,2,2,0]\<close> moved left becomes \<open>[4,2,0,0]\<close> with 4 points)
  and a run of four undergoes two. The same holds for the values produced by the
  inner loop of the tile-list version.
\<close>

theorem merges_per_run:
  "tiles_of (fst (slideLeft row)) = concat (map merge_run (runs (tiles_of row)))
   \<and> snd (slideLeft row) = (\<Sum>(v, k) \<leftarrow> runs (tiles_of row). 2 * v * int (k div 2))
   \<and> merge_count row = (\<Sum>(v, k) \<leftarrow> runs (tiles_of row). k div 2)
   \<and> map tvalue (fst (process_line isH i step line ([], pos, counter, 0, moved))) =
       concat (map merge_run (runs (map tvalue line)))
   \<and> fst (snd (snd (snd (process_line isH i step line ([], pos, counter, 0, moved))))) =
       (\<Sum>(v, k) \<leftarrow> runs (map tvalue line). 2 * v * int (k div 2))
   \<and> merge_run (v, 3) = [2 * v, v]
   \<and> merge_run (v, 4) = [2 * v, 2 * v]
   \<and> slideLeft [2, 2, 2, 0] = ([4, 2, 0, 0], 4)
   \<and> merge_count [2, 2, 2, 0] = 1"
proof -
  have "snd (slideLeft row) = (\<Sum>(v, k) \<leftarrow> runs (tiles_of row). 2 * v * int (k div 2))"
    by (simp add: slideLeft_eq merge_points_runs)
  moreover have "map tvalue (fst (process_line isH i step line ([], pos, counter, 0, moved))) =
       concat (map merge_run (runs (map tvalue line)))"
    by (simp add: process_line_values merged_runs)
  moreover have "fst (snd (snd (snd (process_line isH i step line ([], pos, counter, 0, moved))))) =
       (\<Sum>(v, k) \<leftarrow> runs (map tvalue line). 2 * v * int (k div 2))"
    by (simp add: process_line_points merge_points_runs)
  moreover have "replicate 2 (2 * v) = [2 * v, 2 * v]"
    by (simp add: numeral_2_eq_2)
  then have "merge_run (v, 3) = [2 * v, v]" "merge_run (v, 4) = [2 * v, 2 * v]"
    by (simp_all add: merge_run_def)
  moreover have "slideLeft [2, 2, 2, 0] = ([4, 2, 0, 0], 4)" "merge_count [2, 2, 2, 0] = 1"
    by code_simp+
  ultimately show ?thesis
    using tiles_of_slideLeft[of row] merged_runs[of "tiles_of row"] merge_count_runs[of row]
    by simp
qed

subsection \<open>Claims C1, C9 and C10: the \<open>moved\<close> flag of the tile-list version\<close>

text \<open>
  In \<^verbatim>\<open>src/App.tsx\<close> the flag is raised exactly when the board changes
  (\<open>moved_iff_changed_grid\<close>), and the tile-list version computes the same board and
  the same points (\<open>move_tiles_refines_grid\<close>). Its flag, however, is raised only when
  the first tile of a merged pair, or an unmerged tile, changes its cell (lines 200
  and 207 of \<^verbatim>\<open>part_000\<close>): a merge whose surviving tile stays in place is not
  counted, although the second tile of the pair disappears.
\<close>

text \<open>
  Claim C1 (a move that merges two tiles changes the board and must report
  \<open>moved = true\<close>, e.g. the row \<open>[2,2,0,0]\<close> slid left) fails in the tile-list version:
  on the board whose only row with tiles is \<open>[2,2,0,0]\<close>, the move to the left computes
  the board with row \<open>[4,0,0,0]\<close> and 4 points, and reports \<open>moved = False\<close>. The grid
  version reports \<open>True\<close> on the same board.
\<close>

theorem in_place_merge_not_reported:
  "wf_tiles [tile 1 2 0 0, tile 2 2 0 1]
   \<and> tilesToGrid [tile 1 2 0 0, tile 2 2 0 1] =
       [[2, 2, 0, 0], [0, 0, 0, 0], [0, 0, 0, 0], [0, 0, 0, 0]]
   \<and> move_transform_tiles Left [tile 1 2 0 0, tile 2 2 0 1] 2 =
       ([\<lparr> tid = 3, tvalue = 4, trow = 0, tcol = 0, isNew = None, isMerged = Some True \<rparr>],
        3, 4, False)
   \<and> tilesToGrid (fst (move_transform_tiles Left [tile 1 2 0 0, tile 2 2 0 1] 2)) =
       [[4, 0, 0, 0], [0, 0, 0, 0], [0, 0, 0, 0], [0, 0, 0, 0]]
   \<and> move_transform_grid Left [[2, 2, 0, 0], [0, 0, 0, 0], [0, 0, 0, 0], [0, 0, 0, 0]] =
       ([[4, 0, 0, 0], [0, 0, 0, 0], [0, 0, 0, 0], [0, 0, 0, 0]], 4, True)"
  by code_simp

text \<open>
  Claim C9 (moving right or down is reversing, sliding left and reversing back; the row
  \<open>[2,0,0,2]\<close> moved right becomes \<open>[0,0,0,4]\<close> with 4 points and \<open>moved = true\<close>). The
  relation between the lines holds in both versions (\<open>reverse_move_line_grid\<close>,
  \<open>reverse_move_line_tiles\<close> below), and the example holds in the grid version. In the
  tile-list version the example's flag is \<open>False\<close>: the tile in column 3 survives in
  place.
\<close>

theorem reverse_example_not_reported:
  "wf_tiles [tile 1 2 0 0, tile 2 2 0 3]
   \<and> tilesToGrid [tile 1 2 0 0, tile 2 2 0 3] =
       [[2, 0, 0, 2], [0, 0, 0, 0], [0, 0, 0, 0], [0, 0, 0, 0]]
   \<and> move_transform_tiles Right [tile 1 2 0 0, tile 2 2 0 3] 2 =
       ([\<lparr> tid = 3, tvalue = 4, trow = 0, tcol = 3, isNew = None, isMerged = Some True \<rparr>],
        3, 4, False)
   \<and> move_transform_grid Right [[2, 0, 0, 2], [0, 0, 0, 0], [0, 0, 0, 0], [0, 0, 0, 0]] =
       ([[0, 0, 0, 4], [0, 0, 0, 0], [0, 0, 0, 0], [0, 0, 0, 0]], 4, True)"
  by code_simp

lemma reverse_move_line_grid:
  assumes "is_board g" "j < 4" "reverse d"
  shows "grid_line d (fst (move_transform_grid d g)) j = rev (fst (slideLeft (rev (grid_line d g j))))"
    and "fst (snd (move_transform_grid d g)) = (\<Sum>i\<leftarrow>[0..<4]. snd (slideLeft (rev (grid_line d g i))))"
  using assms by (simp_all add: move_transform_grid_line move_transform_grid_points slide_line_def)

lemma reverse_move_line_tiles:
  assumes "wf_tiles ts" "j < 4" "reverse d"
  shows "grid_line d (tilesToGrid (fst (move_transform_tiles d ts c))) j =
           rev (fst (slideLeft (rev (grid_line d (tilesToGrid ts) j))))"
    and "fst (snd (snd (move_transform_tiles d ts c))) =
           (\<Sum>i\<leftarrow>[0..<4]. snd (slideLeft (rev (grid_line d (tilesToGrid ts) i))))"
  using assms
  by (simp_all add: move_tiles_refines_grid reverse_move_line_grid is_board_tilesToGrid)

text \<open>
  Claim C10 (both versions produce the same board, the same points and the same
  \<open>moved\<close> flag) fails on the flag: on the board with rows \<open>[4,2,0,0]\<close> and \<open>[4,0,0,0]\<close>,
  moved up, the boards and the points agree, the grid version reports \<open>True\<close> and the
  tile-list version \<open>False\<close>.
\<close>

theorem moved_flags_disagree:
  "wf_tiles [tile 1 4 0 0, tile 2 4 1 0, tile 3 2 0 1]
   \<and> tilesToGrid [tile 1 4 0 0, tile 2 4 1 0, tile 3 2 0 1] =
       [[4, 2, 0, 0], [4, 0, 0, 0], [0, 0, 0, 0], [0, 0, 0, 0]]
   \<and> snd (snd (move_transform_grid Up [[4, 2, 0, 0], [4, 0, 0, 0], [0, 0, 0, 0], [0, 0, 0, 0]])) = True
   \<and> snd (snd (snd (move_transform_tiles Up [tile 1 4 0 0, tile 2 4 1 0, tile 3 2 0 1] 3))) = False
   \<and> tilesToGrid (fst (move_transform_tiles Up [tile 1 4 0 0, tile 2 4 1 0, tile 3 2 0 1] 3)) =
       fst (move_transform_grid Up [[4, 2, 0, 0], [4, 0, 0, 0], [0, 0, 0, 0], [0, 0, 0, 0]])
   \<and> fst (snd (snd (move_transform_tiles Up [tile 1 4 0 0, tile 2 4 1 0, tile 3 2 0 1] 3))) =
       fst (snd (move_transform_grid Up [[4, 2, 0, 0], [4, 0, 0, 0], [0, 0, 0, 0], [0, 0, 0, 0]]))"
  by code_simp

subsection \<open>Claim C2: a move preserves the sum of the tiles\<close>

text \<open>
  Claim C2: for every 4x4 board and direction, the board produced by the slide and
  merge transform, before any spawn, has the same total of tile values as the input
  board; the points gained are not added to it. This holds for the grid version and
  for the board of the tile-list version.
\<close>

theorem move_preserves_sum:
  assumes "is_board g" and "wf_tiles ts"
  shows "grid_sum (fst (move_transform_grid d g)) = grid_sum g
       \<and> grid_sum (tilesToGrid (fst (move_transform_tiles d ts c))) = grid_sum (tilesToGrid ts)"
  using assms
  by (simp add: grid_sum_move_transform_grid move_tiles_refines_grid is_board_tilesToGrid)

theorem move_preserves_sum_witness:
  "is_board [[2, 2, 0, 0], [4, 0, 4, 0], [0, 0, 0, 0], [8, 2, 2, 8]]
   \<and> wf_tiles [tile 1 2 0 0, tile 2 2 0 1, tile 3 4 1 0, tile 4 4 1 2]
   \<and> fst (snd (move_transform_grid Right [[2, 2, 0, 0], [4, 0, 4, 0], [0, 0, 0, 0], [8, 2, 2, 8]])) = 16
   \<and> grid_sum (fst (move_transform_grid Right [[2, 2, 0, 0], [4, 0, 4, 0], [0, 0, 0, 0], [8, 2, 2, 8]])) =
       grid_sum [[2, 2, 0, 0], [4, 0, 4, 0], [0, 0, 0, 0], [8, 2, 2, 8]]
   \<and> grid_sum (tilesToGrid (fst (move_transform_tiles Right
          [tile 1 2 0 0, tile 2 2 0 1, tile 3 4 1 0, tile 4 4 1 2] 4))) =
       grid_sum (tilesToGrid [tile 1 2 0 0, tile 2 2 0 1, tile 3 4 1 0, tile 4 4 1 2])"
proof -
  have b: "is_board [[2, 2, 0, 0], [4, 0, 4, 0], [0, 0, 0, 0], [8, 2, 2, 8]]"
    by code_simp
  have w: "wf_tiles [tile 1 2 0 0, tile 2 2 0 1, tile 3 4 1 0, tile 4 4 1 2]"
    by code_simp
  have p: "fst (snd (move_transform_grid Right
             [[2, 2, 0, 0], [4, 0, 4, 0], [0, 0, 0, 0], [8, 2, 2, 8]])) = 16"
    by code_simp
  show ?thesis
    using b w p move_preserves_sum[OF b w, of Right 4] by simp
qed

subsection \<open>Claim C7: a move that reports \<open>moved = false\<close>\<close>

text \<open>
  In \<^verbatim>\<open>src/App.tsx\<close> a move that reports \<open>moved = false\<close> has computed the input
  board and 0 points, and \<^verbatim>\<open>move\<close> returns the state as it was: no tile is spawned,
  score and \<open>gameOver\<close> are untouched.
\<close>

lemma unmoved_grid_is_noop:
  assumes "is_board (gs_grid s)"
    and "\<not> snd (snd (move_transform_grid d (gs_grid s)))"
  shows "fst (move_transform_grid d (gs_grid s)) = gs_grid s"
    and "fst (snd (move_transform_grid d (gs_grid s))) = 0"
    and "move_grid rnd1 rnd2 d s = s"
proof -
  show "fst (move_transform_grid d (gs_grid s)) = gs_grid s"
    using assms moved_iff_changed_grid[of "gs_grid s" d] by simp
  show "fst (snd (move_transform_grid d (gs_grid s))) = 0"
    using assms by (rule not_moved_no_points)
  obtain g' p' b where r: "move_transform_grid d (gs_grid s) = (g', p', b)"
    by (cases "move_transform_grid d (gs_grid s)")
  then have "\<not> b"
    using assms(2) by simp
  then show "move_grid rnd1 rnd2 d s = s"
    by (simp add: move_grid_def r)
qed

text \<open>
  In the tile-list version \<^verbatim>\<open>move\<close> returns at line 216 when \<open>moved\<close> is false, before
  any state is set or any timer is started; only the identifier counter may have
  advanced. The transform itself, however, may have merged tiles by then.
\<close>

lemma unmoved_tiles_returns:
  assumes "\<not> snd (snd (snd (move_transform_tiles d (ts_tiles t) (ts_tileIdCounter t))))"
  shows "\<exists>n. move_tiles d t = t\<lparr> ts_tileIdCounter := n \<rparr>"
proof (cases "ts_gameOver t \<or> ts_isAnimating t")
  case True
  then have "move_tiles d t = t\<lparr> ts_tileIdCounter := ts_tileIdCounter t \<rparr>"
    by (simp add: move_tiles_def)
  then show ?thesis by blast
next
  case False
  obtain new n pts mv where
    r: "move_transform_tiles d (ts_tiles t) (ts_tileIdCounter t) = (new, n, pts, mv)"
    by (cases "move_transform_tiles d (ts_tiles t) (ts_tileIdCounter t)")
  then have "\<not> mv"
    using assms by simp
  then have "move_tiles d t = t\<lparr> ts_tileIdCounter := n \<rparr>"
    using False by (simp add: move_tiles_def r)
  then show ?thesis by blast
qed

text \<open>
  Claim C7 (if the move transform reports \<open>moved = false\<close>, the resulting board equals
  the input board and the points gained are 0) fails in the tile-list version: on the
  board whose only tiles are two 2s in rows 2 and 3 of column 1, the move down reports
  \<open>moved = False\<close> although it has computed a different board, with one 4 in row 3, and
  4 points. \<^verbatim>\<open>move\<close> then returns at line 216 and the board on display stays as it
  was. The grid version reports \<open>True\<close> on the same board.
\<close>

theorem unmoved_transform_has_merged:
  "wf_tiles [tile 1 2 2 1, tile 2 2 3 1]
   \<and> tilesToGrid [tile 1 2 2 1, tile 2 2 3 1] =
       [[0, 0, 0, 0], [0, 0, 0, 0], [0, 2, 0, 0], [0, 2, 0, 0]]
   \<and> move_transform_tiles Down [tile 1 2 2 1, tile 2 2 3 1] 2 =
       ([\<lparr> tid = 3, tvalue = 4, trow = 3, tcol = 1, isNew = None, isMerged = Some True \<rparr>],
        3, 4, False)
   \<and> tilesToGrid (fst (move_transform_tiles Down [tile 1 2 2 1, tile 2 2 3 1] 2)) =
       [[0, 0, 0, 0], [0, 0, 0, 0], [0, 0, 0, 0], [0, 4, 0, 0]]
   \<and> move_tiles Down
        \<lparr> ts_tiles = [tile 1 2 2 1, tile 2 2 3 1], ts_score = 0, ts_bestScore = 20,
          ts_gameOver = False, ts_won = False, ts_isAnimating = False, ts_tileIdCounter = 2,
          ts_stored = Some 20, ts_timers = [] \<rparr> =
        \<lparr> ts_tiles = [tile 1 2 2 1, tile 2 2 3 1], ts_score = 0, ts_bestScore = 20,
          ts_gameOver = False, ts_won = False, ts_isAnimating = False, ts_tileIdCounter = 3,
          ts_stored = Some 20, ts_timers = [] \<rparr>
   \<and> move_transform_grid Down [[0, 0, 0, 0], [0, 0, 0, 0], [0, 2, 0, 0], [0, 2, 0, 0]] =
       ([[0, 0, 0, 0], [0, 0, 0, 0], [0, 0, 0, 0], [0, 4, 0, 0]], 4, True)"
  by code_simp

subsection \<open>Claim C5: \<^verbatim>\<open>canMove\<close>\<close>

lemma canMove_grid_spec: "canMove_grid g \<longleftrightarrow> spec_canMove g"
proof
  assume "canMove_grid g"
  then obtain i j where ij: "i < 4" "j < 4" "canMove_cell g i j"
    by (auto simp: canMove_grid_def list_ex_iff)
  show "spec_canMove g"
  proof (cases "g ! i ! j = 0")
    case True
    then show ?thesis using ij by (auto simp: spec_canMove_def)
  next
    case False
    then consider "j < 3" "g ! i ! j = g ! i ! (j + 1)" | "i < 3" "g ! i ! j = g ! (i + 1) ! j"
      using ij(3) by (auto simp: canMove_cell_def)
    then show ?thesis
    proof cases
      case 1
      then have "\<exists>i<4. \<exists>j<3. g ! i ! j \<noteq> 0 \<and> g ! i ! j = g ! i ! (j + 1)"
        using False ij(1) by blast
      then show ?thesis by (simp add: spec_canMove_def)
    next
      case 2
      then have "\<exists>i<3. \<exists>j<4. g ! i ! j \<noteq> 0 \<and> g ! i ! j = g ! (i + 1) ! j"
        using False ij(2) by blast
      then show ?thesis by (simp add: spec_canMove_def)
    qed
  qed
next
  assume "spec_canMove g"
  then consider i j where "i < 4" "j < 4" "g ! i ! j = 0"
    | i j where "i < 4" "j < 3" "g ! i ! j = g ! i ! (j + 1)"
    | i j where "i < 3" "j < 4" "g ! i ! j = g ! (i + 1) ! j"
    by (auto simp: spec_canMove_def)
  then have "\<exists>i<4. \<exists>j<4. canMove_cell g i j"
  proof cases
    case 1
    then show ?thesis by (auto simp: canMove_cell_def)
  next
    case 2
    then have "j < 4" "canMove_cell g i j" by (auto simp: canMove_cell_def)
    then show ?thesis using 2(1) by blast
  next
    case 3
    then have "i < 4" "canMove_cell g i j" by (auto simp: canMove_cell_def)
    then show ?thesis using 3(2) by blast
  qed
  then show "canMove_grid g"
    by (simp add: canMove_grid_def list_ex_iff Bex_def)
qed

lemma canMove_tiles_grid: "canMove_tiles ts \<longleftrightarrow> canMove_grid (tilesToGrid ts)"
  by (auto simp: canMove_tiles_def canMove_grid_def canMove_cell_def Let_def list_ex_iff)

lemma checkerboard_stuck:
  assumes "a \<noteq> 0" "b \<noteq> 0" "a \<noteq> b"
  shows "\<not> canMove_grid (checkerboard a b)"
  using assms by (simp add: canMove_grid_def canMove_cell_def checkerboard_def upt4)

text \<open>
  Claim C5: for every 4x4 board, \<^verbatim>\<open>canMove\<close> is true if and only if some cell is
  empty or two horizontally or vertically adjacent cells hold equal nonzero values, in
  the grid version and (on the board of the tile list) in the tile-list version; a
  board filled with a checkerboard of two distinct nonzero values yields \<open>False\<close>.
\<close>

theorem canMove_iff_spec:
  assumes "is_board g"
  shows "(canMove_grid g \<longleftrightarrow> spec_canMove g)
       \<and> (canMove_tiles ts \<longleftrightarrow> spec_canMove (tilesToGrid ts))
       \<and> (a \<noteq> 0 \<and> b \<noteq> 0 \<and> a \<noteq> b \<longrightarrow> \<not> canMove_grid (checkerboard a b))
       \<and> (a \<noteq> 0 \<and> b \<noteq> 0 \<and> a \<noteq> b \<and> tilesToGrid ts = checkerboard a b \<longrightarrow> \<not> canMove_tiles ts)"
  using checkerboard_stuck[of a b]
  by (auto simp: canMove_grid_spec canMove_tiles_grid)

theorem canMove_iff_spec_witness:
  "is_board (checkerboard 2 4)
   \<and> (2::int) \<noteq> 0 \<and> (4::int) \<noteq> 0 \<and> (2::int) \<noteq> 4
   \<and> tilesToGrid [tile 1 2 0 0, tile 2 4 0 1, tile 3 2 0 2, tile 4 4 0 3,
                   tile 5 4 1 0, tile 6 2 1 1, tile 7 4 1 2, tile 8 2 1 3,
                   tile 9 2 2 0, tile 10 4 2 1, tile 11 2 2 2, tile 12 4 2 3,
                   tile 13 4 3 0, tile 14 2 3 1, tile 15 4 3 2, tile 16 2 3 3] = checkerboard 2 4
   \<and> \<not> canMove_grid (checkerboard 2 4)
   \<and> \<not> spec_canMove (checkerboard 2 4)
   \<and> \<not> canMove_tiles [tile 1 2 0 0, tile 2 4 0 1, tile 3 2 0 2, tile 4 4 0 3,
                   tile 5 4 1 0, tile 6 2 1 1, tile 7 4 1 2, tile 8 2 1 3,
                   tile 9 2 2 0, tile 10 4 2 1, tile 11 2 2 2, tile 12 4 2 3,
                   tile 13 4 3 0, tile 14 2 3 1, tile 15 4 3 2, tile 16 2 3 3]"
proof -
  let ?ts = "[tile 1 2 0 0, tile 2 4 0 1, tile 3 2 0 2, tile 4 4 0 3,
              tile 5 4 1 0, tile 6 2 1 1, tile 7 4 1 2, tile 8 2 1 3,
              tile 9 2 2 0, tile 10 4 2 1, tile 11 2 2 2, tile 12 4 2 3,
              tile 13 4 3 0, tile 14 2 3 1, tile 15 4 3 2, tile 16 2 3 3]"
  have b: "is_board (checkerboard 2 4)"
    by code_simp
  have t: "tilesToGrid ?ts = checkerboard 2 4"
    by code_simp
  show ?thesis
    using b t canMove_iff_spec[OF b, of ?ts 2 4] by auto
qed

subsection \<open>Claim C6: the win test\<close>

lemma tilesToGrid_snoc: "tilesToGrid (ts @ [t]) = place_tile t (tilesToGrid ts)"
  by (simp add: tilesToGrid_def)

lemma place_tile_nth:
  assumes "is_board G" "i < 4" "j < 4"
  shows "place_tile t G ! i ! j =
           (if trow t = int i \<and> tcol t = int j then tvalue t else G ! i ! j)"
proof (cases "trow t \<ge> 0 \<and> trow t < 4 \<and> tcol t \<ge> 0 \<and> tcol t < 4")
  case False
  then show ?thesis using assms by (auto simp: place_tile_def)
next
  case True
  then have "place_tile t G = G[nat (trow t) := (G ! nat (trow t))[nat (tcol t) := tvalue t]]"
    by (simp add: place_tile_def)
  moreover have "nat (trow t) = i \<longleftrightarrow> trow t = int i" "nat (tcol t) = j \<longleftrightarrow> tcol t = int j"
    using True by auto
  moreover have r: "nat (trow t) < 4" and c: "nat (tcol t) < 4"
    using True by (simp_all add: nat_less4)
  then have "nat (trow t) < length G" "nat (tcol t) < length (G ! nat (trow t))"
    using assms(1) by (simp_all add: is_board_length is_board_row)
  ultimately show ?thesis
    using assms by (auto simp: nth_list_update is_board_length is_board_row)
qed

lemma zero_grid_nth: "i < 4 \<Longrightarrow> j < 4 \<Longrightarrow> tilesToGrid [] ! i ! j = 0"
  by (simp add: tilesToGrid_def)

lemma tilesToGrid_tile_at:
  "i < 4 \<Longrightarrow> j < 4 \<Longrightarrow> tilesToGrid ts ! i ! j \<noteq> 0 \<Longrightarrow>
   \<exists>t\<in>set ts. trow t = int i \<and> tcol t = int j \<and> tvalue t = tilesToGrid ts ! i ! j"
proof (induction ts rule: rev_induct)
  case Nil
  then show ?case by (simp add: zero_grid_nth)
next
  case (snoc t ts)
  show ?case
  proof (cases "trow t = int i \<and> tcol t = int j")
    case True
    then have "tilesToGrid (ts @ [t]) ! i ! j = tvalue t"
      using snoc.prems by (simp add: tilesToGrid_snoc place_tile_nth is_board_tilesToGrid)
    then show ?thesis using True by auto
  next
    case False
    then have eq: "tilesToGrid (ts @ [t]) ! i ! j = tilesToGrid ts ! i ! j"
      using snoc.prems(1,2) by (auto simp: tilesToGrid_snoc place_tile_nth is_board_tilesToGrid)
    then have "tilesToGrid ts ! i ! j \<noteq> 0"
      using snoc.prems(3) by simp
    then obtain s where "s \<in> set ts" "trow s = int i" "tcol s = int j"
        "tvalue s = tilesToGrid ts ! i ! j"
      using snoc.IH[OF snoc.prems(1,2)] by blast
    then show ?thesis using eq by auto
  qed
qed

lemma wf_tiles_snoc:
  "wf_tiles (ts @ [t]) \<longleftrightarrow>
     wf_tiles ts \<and> tile_cell t \<notin> tile_cell ` set ts
     \<and> 0 \<le> trow t \<and> trow t < 4 \<and> 0 \<le> tcol t \<and> tcol t < 4 \<and> tvalue t \<noteq> 0"
  by (auto simp: wf_tiles_def)

lemma tilesToGrid_cell_of_tile:
  "wf_tiles ts \<Longrightarrow> t \<in> set ts \<Longrightarrow> tilesToGrid ts ! nat (trow t) ! nat (tcol t) = tvalue t"
proof (induction ts rule: rev_induct)
  case Nil
  then show ?case by simp
next
  case (snoc s ts)
  have wf: "wf_tiles ts" and fresh: "tile_cell s \<notin> tile_cell ` set ts"
    and s: "0 \<le> trow s" "trow s < 4" "0 \<le> tcol s" "tcol s < 4"
    using snoc.prems(1) by (simp_all add: wf_tiles_snoc)
  have t: "0 \<le> trow t" "trow t < 4" "0 \<le> tcol t" "tcol t < 4"
    using snoc.prems by (auto simp: wf_tiles_def list_all_iff)
  then have n: "nat (trow t) < 4" "nat (tcol t) < 4"
    by simp_all
  show ?case
  proof (cases "trow s = trow t \<and> tcol s = tcol t")
    case True
    then have "t \<notin> set ts"
      using fresh by (auto simp: tile_cell_def image_iff)
    then have "t = s" using snoc.prems(2) by simp
    then show ?thesis
      using n t by (simp add: tilesToGrid_snoc place_tile_nth is_board_tilesToGrid)
  next
    case False
    then have "t \<in> set ts" using snoc.prems(2) by auto
    then have "tilesToGrid ts ! nat (trow t) ! nat (tcol t) = tvalue t"
      using wf by (rule snoc.IH[rotated])
    then show ?thesis
      using n t False by (auto simp: tilesToGrid_snoc place_tile_nth is_board_tilesToGrid)
  qed
qed

lemma hasReachedTarget_board:
  assumes "wf_tiles ts"
  shows "hasReachedTarget ts \<longleftrightarrow> (\<exists>i<4. \<exists>j<4. tilesToGrid ts ! i ! j = 2048)"
proof
  assume "hasReachedTarget ts"
  then obtain t where t: "t \<in> set ts" "tvalue t = 2048"
    by (auto simp: hasReachedTarget_def list_ex_iff)
  have "0 \<le> trow t" "trow t < 4" "0 \<le> tcol t" "tcol t < 4"
    using assms t(1) by (auto simp: wf_tiles_def list_all_iff)
  then have "nat (trow t) < 4" "nat (tcol t) < 4"
    by simp_all
  moreover have "tilesToGrid ts ! nat (trow t) ! nat (tcol t) = 2048"
    using tilesToGrid_cell_of_tile[OF assms t(1)] t(2) by simp
  ultimately show "\<exists>i<4. \<exists>j<4. tilesToGrid ts ! i ! j = 2048"
    by blast
next
  assume "\<exists>i<4. \<exists>j<4. tilesToGrid ts ! i ! j = 2048"
  then obtain i j where "i < 4" "j < 4" "tilesToGrid ts ! i ! j = 2048"
    by blast
  then obtain t where "t \<in> set ts" "tvalue t = 2048"
    using tilesToGrid_tile_at[of i j ts] by auto
  then show "hasReachedTarget ts"
    by (auto simp: hasReachedTarget_def list_ex_iff)
qed

text \<open>
  Claim C6, as stated, fails: the win test of line 225 compares with \<open>2048\<close> by
  \<^verbatim>\<open>===\<close>. A board whose only tile is 4096 has a cell \<open>\<ge> 2048\<close> and does not pass it.
  (\<^verbatim>\<open>src/App.tsx\<close> has no win test: its \<^verbatim>\<open>move\<close> never sets \<^verbatim>\<open>won\<close>.)
\<close>

theorem win_test_4096_counterexample:
  "wf_tiles [tile 1 4096 0 0]
   \<and> tilesToGrid [tile 1 4096 0 0] ! 0 ! 0 = 4096
   \<and> \<not> hasReachedTarget [tile 1 4096 0 0]"
  by code_simp

text \<open>
  Claim C6, amended: the win test is true if and only if some cell of the board holds
  exactly 2048; a single tile of value 2048 anywhere satisfies it whatever the other
  cells hold.
\<close>

theorem win_test_iff_2048:
  assumes "wf_tiles ts"
  shows "(hasReachedTarget ts \<longleftrightarrow> (\<exists>i<4. \<exists>j<4. tilesToGrid ts ! i ! j = 2048))
       \<and> (hasReachedTarget ts \<longleftrightarrow> (\<exists>t\<in>set ts. tvalue t = 2048))"
  using hasReachedTarget_board[OF assms]
  by (simp add: hasReachedTarget_def list_ex_iff)

theorem win_test_iff_2048_witness:
  "wf_tiles [tile 1 4 0 0, tile 2 2048 2 3, tile 3 4096 3 3]
   \<and> hasReachedTarget [tile 1 4 0 0, tile 2 2048 2 3, tile 3 4096 3 3]
   \<and> (\<exists>i<4. \<exists>j<4. tilesToGrid [tile 1 4 0 0, tile 2 2048 2 3, tile 3 4096 3 3] ! i ! j = 2048)"
proof -
  have w: "wf_tiles [tile 1 4 0 0, tile 2 2048 2 3, tile 3 4096 3 3]"
    by code_simp
  have h: "hasReachedTarget [tile 1 4 0 0, tile 2 2048 2 3, tile 3 4096 3 3]"
    by code_simp
  show ?thesis
    using w h win_test_iff_2048[OF w] by simp
qed

subsection \<open>Claim C8: the spawn\<close>

lemma set_emptyCells: "set (emptyCells g) = {(i, j). i < 4 \<and> j < 4 \<and> g ! i ! j = 0}"
  by (auto simp: emptyCells_def)

lemma random_index:
  assumes "0 \<le> rnd" "rnd < 1" "0 < n"
  shows "nat \<lfloor>rnd * real n\<rfloor> < n"
proof -
  have "rnd * real n < real n"
    using assms by simp
  then have "\<lfloor>rnd * real n\<rfloor> < int n"
    by (simp add: floor_less_iff)
  then show ?thesis
    using assms(3) by linarith
qed

lemma getEmptyCells_grid: "getEmptyCells ts = emptyCells (tilesToGrid ts)"
  by (simp add: getEmptyCells_def emptyCells_def Let_def)

lemma addRandomTile_grid_cases:
  assumes "0 \<le> rnd1" "rnd1 < 1"
  shows "emptyCells g = [] \<and> addRandomTile_grid rnd1 rnd2 g = g
     \<or> (\<exists>i<4. \<exists>j<4. g ! i ! j = 0
            \<and> (i, j) = emptyCells g ! nat \<lfloor>rnd1 * real (length (emptyCells g))\<rfloor>
            \<and> addRandomTile_grid rnd1 rnd2 g = g[i := (g ! i)[j := (if rnd2 < 0.9 then 2 else 4)]])"
proof (cases "emptyCells g = []")
  case True
  then show ?thesis by (simp add: addRandomTile_grid_def)
next
  case False
  let ?k = "nat \<lfloor>rnd1 * real (length (emptyCells g))\<rfloor>"
  have "?k < length (emptyCells g)"
    using assms False by (intro random_index) simp_all
  then have "emptyCells g ! ?k \<in> set (emptyCells g)"
    by simp
  then obtain i j where ij: "emptyCells g ! ?k = (i, j)" "i < 4" "j < 4" "g ! i ! j = 0"
    by (auto simp: set_emptyCells)
  have "addRandomTile_grid rnd1 rnd2 g = g[i := (g ! i)[j := (if rnd2 < 0.9 then 2 else 4)]]"
    using False ij(1) by (simp add: addRandomTile_grid_def Let_def)
  then show ?thesis
    using ij by auto
qed

lemma addRandomTile_tiles_grid:
  assumes "0 \<le> rnd1" "rnd1 < 1"
  shows "tilesToGrid (fst (addRandomTile_tiles rnd1 rnd2 (ts, c))) =
           addRandomTile_grid rnd1 rnd2 (tilesToGrid ts)"
proof (cases "emptyCells (tilesToGrid ts) = []")
  case True
  then show ?thesis
    by (simp add: addRandomTile_tiles_def addRandomTile_grid_def getEmptyCells_grid)
next
  case False
  let ?g = "tilesToGrid ts"
  let ?k = "nat \<lfloor>rnd1 * real (length (emptyCells ?g))\<rfloor>"
  obtain i j where ij: "i < 4" "j < 4" "(i, j) = emptyCells ?g ! ?k"
      "addRandomTile_grid rnd1 rnd2 ?g = ?g[i := (?g ! i)[j := (if rnd2 < 0.9 then 2 else 4)]]"
    using addRandomTile_grid_cases[OF assms, of ?g rnd2] False by auto
  have "fst (addRandomTile_tiles rnd1 rnd2 (ts, c)) =
          ts @ [\<lparr> tid = c + 1, tvalue = (if rnd2 < 0.9 then 2 else 4), trow = int i, tcol = int j,
                  isNew = Some True, isMerged = None \<rparr>]"
    using False ij(3)[symmetric] by (simp add: addRandomTile_tiles_def getEmptyCells_grid Let_def)
  then show ?thesis
    using ij(1,2) by (simp add: tilesToGrid_snoc place_tile_def ij(4))
qed

text \<open>
  Claim C8: on a board with at least one empty cell, \<^verbatim>\<open>addRandomTile\<close> returns the
  board with one previously empty cell set to 2 or 4 and every other cell unchanged;
  on a full board it returns the board unchanged. The tile-list version appends one
  tile so that its board is the result of the grid version, and returns the list as it
  is when the board is full.
\<close>

theorem addRandomTile_adds_one_tile:
  assumes "is_board g" and "0 \<le> rnd1" and "rnd1 < 1"
  shows "((\<exists>i<4. \<exists>j<4. g ! i ! j = 0) \<longrightarrow>
            (\<exists>i<4. \<exists>j<4. \<exists>v\<in>{2, 4}. g ! i ! j = 0
                \<and> addRandomTile_grid rnd1 rnd2 g = g[i := (g ! i)[j := v]]))
       \<and> (\<not> (\<exists>i<4. \<exists>j<4. g ! i ! j = 0) \<longrightarrow> addRandomTile_grid rnd1 rnd2 g = g)
       \<and> is_board (addRandomTile_grid rnd1 rnd2 g)
       \<and> tilesToGrid (fst (addRandomTile_tiles rnd1 rnd2 (ts, c))) =
           addRandomTile_grid rnd1 rnd2 (tilesToGrid ts)
       \<and> (\<not> (\<exists>i<4. \<exists>j<4. tilesToGrid ts ! i ! j = 0) \<longrightarrow>
            addRandomTile_tiles rnd1 rnd2 (ts, c) = (ts, c))"
proof -
  have e: "emptyCells h = [] \<longleftrightarrow> \<not> (\<exists>i<4. \<exists>j<4. h ! i ! j = 0)" for h
    using set_emptyCells[of h] by (auto simp: set_empty2[symmetric] simp del: set_empty2)
  note cases = addRandomTile_grid_cases[OF assms(2,3), of g rnd2]
  have 1: "(\<exists>i<4. \<exists>j<4. g ! i ! j = 0) \<longrightarrow>
            (\<exists>i<4. \<exists>j<4. \<exists>v\<in>{2, 4}. g ! i ! j = 0
                \<and> addRandomTile_grid rnd1 rnd2 g = g[i := (g ! i)[j := v]])"
  proof
    assume "\<exists>i<4. \<exists>j<4. g ! i ! j = 0"
    then have "emptyCells g \<noteq> []"
      using e[of g] by blast
    then obtain i j where ij: "i < 4" "j < 4" "g ! i ! j = 0"
        "addRandomTile_grid rnd1 rnd2 g = g[i := (g ! i)[j := (if rnd2 < 0.9 then 2 else 4)]]"
      using cases by auto
    have "(if rnd2 < 0.9 then 2 else 4) \<in> {2, 4 :: int}"
      by simp
    then show "\<exists>i<4. \<exists>j<4. \<exists>v\<in>{2, 4}. g ! i ! j = 0
                \<and> addRandomTile_grid rnd1 rnd2 g = g[i := (g ! i)[j := v]]"
      using ij by blast
  qed
  have 2: "\<not> (\<exists>i<4. \<exists>j<4. g ! i ! j = 0) \<longrightarrow> addRandomTile_grid rnd1 rnd2 g = g"
  proof
    assume "\<not> (\<exists>i<4. \<exists>j<4. g ! i ! j = 0)"
    then have "emptyCells g = []"
      using e[of g] by blast
    then show "addRandomTile_grid rnd1 rnd2 g = g"
      by (simp add: addRandomTile_grid_def)
  qed
  have 3: "is_board (addRandomTile_grid rnd1 rnd2 g)"
  proof -
    have "is_board (g[i := (g ! i)[j := v]])" for i j v
      using assms(1) by (cases "i < length g") (auto simp: is_board_def list_all_length nth_list_update)
    then show ?thesis
      using cases assms(1) by auto
  qed
  have 5: "\<not> (\<exists>i<4. \<exists>j<4. tilesToGrid ts ! i ! j = 0) \<longrightarrow>
            addRandomTile_tiles rnd1 rnd2 (ts, c) = (ts, c)"
  proof
    assume "\<not> (\<exists>i<4. \<exists>j<4. tilesToGrid ts ! i ! j = 0)"
    then have "emptyCells (tilesToGrid ts) = []"
      using e[of "tilesToGrid ts"] by blast
    then show "addRandomTile_tiles rnd1 rnd2 (ts, c) = (ts, c)"
      by (simp add: addRandomTile_tiles_def getEmptyCells_grid)
  qed
  show ?thesis
    using 1 2 3 5 addRandomTile_tiles_grid[OF assms(2,3), of rnd2 ts c] by blast
qed

theorem addRandomTile_adds_one_tile_witness:
  "is_board [[2, 0, 0, 2], [2, 0, 0, 0], [4, 0, 0, 0], [0, 0, 0, 2]]
   \<and> (0::real) \<le> 1 / 2 \<and> (1 / 2 :: real) < 1
   \<and> addRandomTile_grid (1 / 2) (95 / 100) [[2, 0, 0, 2], [2, 0, 0, 0], [4, 0, 0, 0], [0, 0, 0, 2]] =
       [[2, 0, 0, 2], [2, 0, 0, 0], [4, 4, 0, 0], [0, 0, 0, 2]]
   \<and> is_board (addRandomTile_grid (1 / 2) (95 / 100)
        [[2, 0, 0, 2], [2, 0, 0, 0], [4, 0, 0, 0], [0, 0, 0, 2]])
   \<and> tilesToGrid (fst (addRandomTile_tiles (1 / 2) (95 / 100) ([tile 1 2 0 0, tile 2 2 0 3], 2))) =
       addRandomTile_grid (1 / 2) (95 / 100) (tilesToGrid [tile 1 2 0 0, tile 2 2 0 3])"
proof -
  have b: "is_board [[2, 0, 0, 2], [2, 0, 0, 0], [4, 0, 0, 0], [0, 0, 0, 2]]"
    by code_simp
  have r: "(0::real) \<le> 1 / 2" "(1 / 2 :: real) < 1"
    by simp_all
  have v: "addRandomTile_grid (1 / 2) (95 / 100) [[2, 0, 0, 2], [2, 0, 0, 0], [4, 0, 0, 0], [0, 0, 0, 2]] =
       [[2, 0, 0, 2], [2, 0, 0, 0], [4, 4, 0, 0], [0, 0, 0, 2]]"
    by (simp add: addRandomTile_grid_def emptyCells_def upt4)
  show ?thesis
    using b r v addRandomTile_adds_one_tile[OF b r, of "95 / 100" "[tile 1 2 0 0, tile 2 2 0 3]" 2]
    by simp
qed

subsection \<open>The tile lists the game reaches represent boards\<close>

text \<open>
  \<open>wf_tiles\<close> holds of the empty list, and is preserved by the slide and merge
  transform and by the spawn; so the hypothesis \<open>wf_tiles\<close> of the theorems above
  covers every tile list the component can hold.
\<close>

lemma wf_tiles_Nil: "wf_tiles []"
  by (simp add: wf_tiles_def)

lemma fold_move_line_concat:
  assumes "distinct js"
  shows "\<exists>Pf. fst (fold (move_line d cur) js (acc, c, p, m)) = acc @ concat (map Pf js)
            \<and> (\<forall>i\<in>set js. line_out d (line_in d cur i) (int i) (Pf i))"
  using assms
proof (induction js arbitrary: acc c p m)
  case Nil
  show ?case by simp
next
  case (Cons i js)
  obtain acc' c' p' m' where s: "move_line d cur i (acc, c, p, m) = (acc', c', p', m')"
    by (cases "move_line d cur i (acc, c, p, m)")
  obtain Pi where Pi: "acc' = acc @ Pi" "line_out d (line_in d cur i) (int i) Pi"
    using move_line_out[of d cur i acc c p m] by (auto simp: s)
  obtain Pf where Pf: "fst (fold (move_line d cur) js (acc', c', p', m')) = acc' @ concat (map Pf js)"
      "\<forall>k\<in>set js. line_out d (line_in d cur k) (int k) (Pf k)"
    using Cons.IH[of acc' c' p' m'] Cons.prems by auto
  have nin: "i \<notin> set js"
    using Cons.prems by simp
  then have same: "map (Pf(i := Pi)) js = map Pf js"
    by (intro map_cong) auto
  have "fst (fold (move_line d cur) (i # js) (acc, c, p, m)) =
          acc @ concat (map (Pf(i := Pi)) (i # js))"
    using Pf(1) by (simp add: s Pi(1) same)
  moreover have "\<forall>k\<in>set (i # js). line_out d (line_in d cur k) (int k) ((Pf(i := Pi)) k)"
    using Pf(2) Pi(2) by auto
  ultimately show ?case
    by blast
qed

lemma tile_cell_line:
  "tile_cell t = (if isHorizontal d then (lineIdx d t, linePos d t) else (linePos d t, lineIdx d t))"
  by (simp add: tile_cell_def lineIdx_def linePos_def)

lemma line_out_wf:
  assumes out: "line_out d L (int i) P" and i: "i < 4" and len: "length P \<le> 4"
    and nz: "0 \<notin> set (map tvalue L)"
  shows "distinct (map (linePos d) P)"
    and "\<forall>t\<in>set P. lineIdx d t = int i \<and> 0 \<le> linePos d t \<and> linePos d t < 4 \<and> tvalue t \<noteq> 0"
proof -
  have pos: "linePos d (P ! k) = (if reverse d then 3 - int k else int k)" if "k < length P" for k
    using out that by (simp add: line_out_def)
  show "distinct (map (linePos d) P)"
    unfolding distinct_conv_nth
  proof (intro allI impI)
    fix a b assume "a < length (map (linePos d) P)" "b < length (map (linePos d) P)" "a \<noteq> b"
    then show "map (linePos d) P ! a \<noteq> map (linePos d) P ! b"
      using pos[of a] pos[of b] by (auto split: if_splits)
  qed
  have "0 \<notin> set (merged (map tvalue L))"
    using nz by (rule merged_nonzero)
  then have v: "0 \<notin> set (map tvalue P)"
    using out by (simp add: line_out_def)
  show "\<forall>t\<in>set P. lineIdx d t = int i \<and> 0 \<le> linePos d t \<and> linePos d t < 4 \<and> tvalue t \<noteq> 0"
  proof
    fix t assume t: "t \<in> set P"
    then obtain k where k: "k < length P" "P ! k = t"
      by (auto simp: in_set_conv_nth)
    then have "0 \<le> linePos d t \<and> linePos d t < 4"
      using pos[of k] len by (auto split: if_splits)
    moreover have "lineIdx d t = int i"
      using out t by (simp add: line_out_def)
    moreover have "tvalue t \<noteq> 0"
      using v t by auto
    ultimately show "lineIdx d t = int i \<and> 0 \<le> linePos d t \<and> linePos d t < 4 \<and> tvalue t \<noteq> 0"
      by simp
  qed
qed

lemma line_in_nonzero:
  assumes "wf_tiles cur"
  shows "0 \<notin> set (map tvalue (line_in d cur i))"
  using assms by (auto simp: wf_tiles_def list_all_iff sortLine_def)

lemma line_in_length:
  assumes "wf_tiles cur" "i < 4"
  shows "length (line_in d cur i) \<le> 4"
proof -
  let ?line = "grid_line d (tilesToGrid cur) i"
  have "length (map tvalue (line_in d cur i)) =
          length (tiles_of (if reverse d then rev ?line else ?line))"
    using input_values[OF assms, of d] by simp
  also have "\<dots> \<le> length (if reverse d then rev ?line else ?line)"
    by (rule length_filter_le)
  also have "\<dots> = 4"
    using assms(2) by (simp add: length_grid_line is_board_tilesToGrid)
  finally show ?thesis by simp
qed

lemma wf_tiles_move_transform:
  assumes "wf_tiles ts"
  shows "wf_tiles (fst (move_transform_tiles d ts c))"
proof -
  let ?cur = "map clearFlags ts"
  have wf: "wf_tiles ?cur"
    using assms by (simp add: wf_tiles_clearFlags)
  obtain Pf where new: "fst (fold (move_line d ?cur) [0..<4] ([], c, 0, False)) = concat (map Pf [0..<4])"
      and out: "\<forall>i\<in>set [0..<4]. line_out d (line_in d ?cur i) (int i) (Pf i)"
    using fold_move_line_concat[of "[0..<4]" d ?cur "[]" c 0 False] by auto
  have P: "distinct (map (linePos d) (Pf i))"
      "\<forall>t\<in>set (Pf i). lineIdx d t = int i \<and> 0 \<le> linePos d t \<and> linePos d t < 4 \<and> tvalue t \<noteq> 0"
    if i: "i < 4" for i
  proof -
    have o: "line_out d (line_in d ?cur i) (int i) (Pf i)"
      using out i by simp
    have "length (Pf i) = length (merged (map tvalue (line_in d ?cur i)))"
      using o by (metis line_out_def length_map)
    also have "\<dots> \<le> length (map tvalue (line_in d ?cur i))"
      by (rule length_merged_le)
    also have "\<dots> \<le> 4"
      using line_in_length[OF wf i, of d] by simp
    finally have len: "length (Pf i) \<le> 4" .
    show "distinct (map (linePos d) (Pf i))"
      "\<forall>t\<in>set (Pf i). lineIdx d t = int i \<and> 0 \<le> linePos d t \<and> linePos d t < 4 \<and> tvalue t \<noteq> 0"
      using line_out_wf[OF o i len line_in_nonzero[OF wf]] by blast+
  qed
  have cellP: "map tile_cell (Pf i) =
           map (\<lambda>t. if isHorizontal d then (int i, linePos d t) else (linePos d t, int i)) (Pf i)"
    if "i < 4" for i
    using P(2)[OF that] by (intro map_cong) (auto simp: tile_cell_line[of _ d])
  have dist: "distinct (map tile_cell (Pf i))" if "i < 4" for i
    using P(1)[OF that] unfolding cellP[OF that]
    by (auto simp: distinct_map inj_on_def)
  have disj: "set (map tile_cell (Pf i)) \<inter> set (map tile_cell (Pf j)) = {}"
    if "i < 4" "j < 4" "i \<noteq> j" for i j
    unfolding cellP[OF that(1)] cellP[OF that(2)] using that(3) by auto
  have range: "0 \<le> trow t \<and> trow t < 4 \<and> 0 \<le> tcol t \<and> tcol t < 4 \<and> tvalue t \<noteq> 0"
    if "i < 4" "t \<in> set (Pf i)" for i t
    using P(2)[OF that(1)] that by (auto simp: lineIdx_def linePos_def split: if_splits)
  have d01: "set (map tile_cell (Pf 0)) \<inter> set (map tile_cell (Pf 1)) = {}"
    and d02: "set (map tile_cell (Pf 0)) \<inter> set (map tile_cell (Pf 2)) = {}"
    and d03: "set (map tile_cell (Pf 0)) \<inter> set (map tile_cell (Pf 3)) = {}"
    and d12: "set (map tile_cell (Pf 1)) \<inter> set (map tile_cell (Pf 2)) = {}"
    and d13: "set (map tile_cell (Pf 1)) \<inter> set (map tile_cell (Pf 3)) = {}"
    and d23: "set (map tile_cell (Pf 2)) \<inter> set (map tile_cell (Pf 3)) = {}"
    using disj[of 0 1] disj[of 0 2] disj[of 0 3] disj[of 1 2] disj[of 1 3] disj[of 2 3]
    by simp_all
  have "distinct (map tile_cell (Pf 0 @ Pf 1 @ Pf 2 @ Pf 3))"
    using dist[of 0] dist[of 1] dist[of 2] dist[of 3] d01 d02 d03 d12 d13 d23
    by (simp add: Int_Un_distrib)
  then have 1: "distinct (map tile_cell (concat (map Pf [0..<4])))"
    by (simp add: upt4)
  have 2: "list_all (\<lambda>t. 0 \<le> trow t \<and> trow t < 4 \<and> 0 \<le> tcol t \<and> tcol t < 4 \<and> tvalue t \<noteq> 0)
             (concat (map Pf [0..<4]))"
    using range[of 0] range[of 1] range[of 2] range[of 3] by (auto simp: upt4 list_all_iff)
  show ?thesis
    using 1 2 by (simp add: move_transform_tiles_def new wf_tiles_def)
qed

lemma wf_tiles_addRandomTile:
  assumes wf: "wf_tiles ts" and r: "0 \<le> rnd1" "rnd1 < 1"
  shows "wf_tiles (fst (addRandomTile_tiles rnd1 rnd2 (ts, c)))"
proof (cases "emptyCells (tilesToGrid ts) = []")
  case True
  then show ?thesis
    using wf by (simp add: addRandomTile_tiles_def getEmptyCells_grid)
next
  case False
  let ?g = "tilesToGrid ts"
  let ?k = "nat \<lfloor>rnd1 * real (length (emptyCells ?g))\<rfloor>"
  obtain i j where ij: "i < 4" "j < 4" "?g ! i ! j = 0" "(i, j) = emptyCells ?g ! ?k"
    using addRandomTile_grid_cases[OF r, of ?g rnd2] False by auto
  let ?t = "\<lparr> tid = c + 1, tvalue = (if rnd2 < 0.9 then 2 else 4), trow = int i, tcol = int j,
              isNew = Some True, isMerged = None \<rparr>"
  have new: "fst (addRandomTile_tiles rnd1 rnd2 (ts, c)) = ts @ [?t]"
    using False ij(4)[symmetric] by (simp add: addRandomTile_tiles_def getEmptyCells_grid Let_def)
  have "tile_cell ?t \<notin> tile_cell ` set ts"
  proof
    assume "tile_cell ?t \<in> tile_cell ` set ts"
    then obtain s where s: "s \<in> set ts" "trow s = int i" "tcol s = int j"
      by (auto simp: tile_cell_def)
    then have "?g ! i ! j = tvalue s"
      using tilesToGrid_cell_of_tile[OF wf s(1)] by simp
    moreover have "tvalue s \<noteq> 0"
      using wf s(1) by (auto simp: wf_tiles_def list_all_iff)
    ultimately show False using ij(3) by simp
  qed
  then show ?thesis
    using wf ij(1,2) by (simp add: new wf_tiles_snoc)
qed

lemma tiles_invariant_move_tiles:
  assumes "tiles_invariant s"
  shows "tiles_invariant (move_tiles d s)"
proof -
  obtain new n pts mv where
    r: "move_transform_tiles d (ts_tiles s) (ts_tileIdCounter s) = (new, n, pts, mv)"
    by (cases "move_transform_tiles d (ts_tiles s) (ts_tileIdCounter s)")
  have "wf_tiles new"
    using wf_tiles_move_transform[of "ts_tiles s" d "ts_tileIdCounter s"] assms
    by (simp add: tiles_invariant_def r)
  then show ?thesis
    using assms by (auto simp: tiles_invariant_def move_tiles_def r)
qed

lemma tiles_invariant_timer_fires:
  assumes "tiles_invariant s" and "0 \<le> rnd1" "rnd1 < 1"
  shows "tiles_invariant (timer_fires rnd1 rnd2 s)"
proof (cases "ts_timers s")
  case Nil
  then show ?thesis using assms(1) by (simp add: timer_fires_def)
next
  case (Cons p timers)
  obtain final n where
    r: "addRandomTile_tiles rnd1 rnd2 (p_newTiles p, ts_tileIdCounter s) = (final, n)"
    by (cases "addRandomTile_tiles rnd1 rnd2 (p_newTiles p, ts_tileIdCounter s)")
  have "wf_tiles (p_newTiles p)"
    using assms(1) Cons by (simp add: tiles_invariant_def)
  then have "wf_tiles final"
    using wf_tiles_addRandomTile[OF _ assms(2,3), of "p_newTiles p" rnd2 "ts_tileIdCounter s"]
    by (simp add: r)
  then show ?thesis
    using assms(1) Cons by (simp add: tiles_invariant_def timer_fires_def r wf_tiles_clearFlags Let_def)
qed

subsection \<open>What the \<open>moved\<close> flag of the tile-list version does guarantee\<close>

text \<open>
  The flag of the tile-list version is never raised without cause: when it is
  \<open>True\<close> the board has changed, and the grid version raises its flag too. Only the
  converse fails, at merges whose surviving tile stays in place (claims C1, C7, C9, C10).
\<close>

lemma strictly_sorted_initial_segment:
  fixes xs :: "int list"
  assumes "sorted_wrt (<) xs" and "set xs \<subseteq> {0..<int (length xs)}"
  shows "xs = map int [0..<length xs]"
proof -
  have d: "distinct xs" and s: "sorted xs"
    using assms(1) by (simp_all add: strict_sorted_iff)
  have "card (set xs) = length xs"
    using d by (rule distinct_card)
  then have "card (set xs) = card {0..<int (length xs)}"
    by simp
  then have set: "set xs = {0..<int (length xs)}"
    using assms(2) by (intro card_subset_eq) simp_all
  have "sorted (map int [0..<length xs])"
    by (simp add: sorted_map)
  moreover have "distinct (map int [0..<length xs])"
    by (simp add: distinct_map inj_on_def)
  moreover have "set (map int [0..<length xs]) = set xs"
    unfolding set by (simp add: image_int_atLeastLessThan)
  ultimately show ?thesis
    using s d by (intro sorted_distinct_set_unique) simp_all
qed


lemma sortLine_travelPos:
  assumes inj: "inj_on (linePos d) (set line)" and dist: "distinct line"
  shows "sorted_wrt (<) (map (travelPos d) (sortLine d line))"
proof -
  let ?key = "\<lambda>t. if reverse d then - linePos d t else linePos d t"
  have "sorted (map ?key (sortLine d line))"
    unfolding sortLine_def by (rule sorted_sort_key)
  moreover have "distinct (map ?key (sortLine d line))"
    using inj dist by (auto simp: distinct_map sortLine_def inj_on_def)
  ultimately have "sorted_wrt (<) (map ?key (sortLine d line))"
    by (simp add: strict_sorted_iff)
  then have "sorted_wrt (\<lambda>s t. ?key s < ?key t) (sortLine d line)"
    by (simp add: sorted_wrt_map)
  then have "sorted_wrt (\<lambda>s t. travelPos d s < travelPos d t) (sortLine d line)"
    by (rule sorted_wrt_mono_rel[rotated]) (auto simp: travelPos_def split: if_splits)
  then show ?thesis
    by (simp add: sorted_wrt_map)
qed

lemma grid_line_cell:
  assumes "is_board G" "j < 4" "p < 4"
  shows "grid_line d G j ! p = (if isHorizontal d then G ! j ! p else G ! p ! j)"
  using assms(3) by (auto simp: grid_line_def getColumn_def upt4 dest!: less4_cases)

lemma travel_cell:
  assumes wf: "wf_tiles cur" and t: "t \<in> set cur" and idx: "lineIdx d t = int j" and j: "j < 4"
  shows "(if reverse d then rev (grid_line d (tilesToGrid cur) j)
          else grid_line d (tilesToGrid cur) j) ! nat (travelPos d t) = tvalue t"
    and "0 \<le> travelPos d t" and "travelPos d t < 4"
proof -
  let ?line = "grid_line d (tilesToGrid cur) j"
  have r: "0 \<le> trow t" "trow t < 4" "0 \<le> tcol t" "tcol t < 4"
    using wf t by (auto simp: wf_tiles_def list_all_iff)
  then have p: "0 \<le> linePos d t" "linePos d t < 4"
    by (simp_all add: linePos_def)
  then show "0 \<le> travelPos d t" "travelPos d t < 4"
    by (simp_all add: travelPos_def)
  have n: "nat (linePos d t) < 4"
    using p by simp
  have "?line ! nat (linePos d t) =
          (if isHorizontal d then tilesToGrid cur ! j ! nat (linePos d t)
           else tilesToGrid cur ! nat (linePos d t) ! j)"
    using is_board_tilesToGrid j n by (rule grid_line_cell)
  also have "\<dots> = tilesToGrid cur ! nat (trow t) ! nat (tcol t)"
    using idx by (auto simp: lineIdx_def linePos_def)
  finally have "?line ! nat (linePos d t) = tilesToGrid cur ! nat (trow t) ! nat (tcol t)" .
  then have cell: "?line ! nat (linePos d t) = tvalue t"
    using tilesToGrid_cell_of_tile[OF wf t] by simp
  have len: "length ?line = 4"
    using j by (simp add: length_grid_line is_board_tilesToGrid)
  show "(if reverse d then rev ?line else ?line) ! nat (travelPos d t) = tvalue t"
  proof (cases "reverse d")
    case False
    then show ?thesis using cell by (simp add: travelPos_def)
  next
    case True
    have "nat (3 - linePos d t) < length ?line"
      using p len by simp
    then have "rev ?line ! nat (3 - linePos d t) = ?line ! (length ?line - Suc (nat (3 - linePos d t)))"
      by (rule rev_nth)
    also have "length ?line - Suc (nat (3 - linePos d t)) = nat (linePos d t)"
      using p len by simp
    finally show ?thesis
      using True cell by (simp add: travelPos_def)
  qed
qed

lemma unchanged_line_at_rest:
  assumes wf: "wf_tiles cur" and j: "j < 4"
    and same: "fst (slide_line d (grid_line d (tilesToGrid cur) j)) = grid_line d (tilesToGrid cur) j"
  shows "merged (map tvalue (line_in d cur j)) = map tvalue (line_in d cur j)"
    and "\<forall>k<length (line_in d cur j).
           linePos d (line_in d cur j ! k) = (if reverse d then int GRID_SIZE - 1 - int k else int k)"
proof -
  let ?line = "grid_line d (tilesToGrid cur) j"
  define ord where "ord = (if reverse d then rev ?line else ?line)"
  define L where "L = line_in d cur j"
  define w where "w = map tvalue L"
  have w: "w = tiles_of ord"
    unfolding w_def L_def ord_def using wf j by (rule input_values)
  have nz: "0 \<notin> set w"
    unfolding w_def L_def using wf by (rule line_in_nonzero)
  have "fst (slideLeft ord) = ord"
  proof (cases "reverse d")
    case True
    then have "rev (fst (slideLeft (rev ?line))) = ?line"
      using same by (simp add: slide_line_def)
    then have "fst (slideLeft (rev ?line)) = rev ?line"
      by (metis rev_rev_ident)
    then show ?thesis using True by (simp add: ord_def)
  next
    case False
    then show ?thesis using same by (simp add: slide_line_def ord_def)
  qed
  then have "merged (tiles_of ord) @ replicate (4 - length (merged (tiles_of ord))) 0 = ord"
    by (simp add: slideLeft_eq)
  then have ord: "ord = merged w @ replicate (4 - length (merged w)) 0"
    unfolding w by (rule sym)
  have "0 \<notin> set (merged w)"
    using nz by (rule merged_nonzero)
  then have "tiles_of (merged w) = merged w"
    by (auto simp: filter_id_conv)
  then have "tiles_of (merged w @ replicate (4 - length (merged w)) 0) = merged w"
    by simp
  then have "tiles_of ord = merged w"
    using ord by metis
  then have m: "merged w = w"
    using w by simp
  then show "merged (map tvalue (line_in d cur j)) = map tvalue (line_in d cur j)"
    by (simp add: w_def L_def)
  have ord': "ord = w @ replicate (4 - length w) 0"
    using ord m by simp
  have zero: "ord ! k = 0" if "length L \<le> k" "k < 4" for k
  proof -
    have "length w = length L"
      by (simp add: w_def)
    then show ?thesis
      using that by (subst ord') (simp add: nth_append)
  qed
  have sub: "set (map (travelPos d) L) \<subseteq> {0..<int (length (map (travelPos d) L))}"
  proof
    fix x assume "x \<in> set (map (travelPos d) L)"
    then obtain t where t: "t \<in> set L" "x = travelPos d t"
      by auto
    then have tc: "t \<in> set cur" "lineIdx d t = int j"
      by (simp_all add: L_def sortLine_def)
    note tr = travel_cell[OF wf tc j]
    have "tvalue t \<noteq> 0"
      using wf tc(1) by (auto simp: wf_tiles_def list_all_iff)
    then have "ord ! nat (travelPos d t) \<noteq> 0"
      using tr(1) by (simp add: ord_def)
    moreover have "nat (travelPos d t) < 4"
      using tr(2,3) by simp
    ultimately have "\<not> length L \<le> nat (travelPos d t)"
      using zero[of "nat (travelPos d t)"] by blast
    then show "x \<in> {0..<int (length (map (travelPos d) L))}"
      using tr(2) t(2) by simp
  qed
  have "sorted_wrt (<) (map (travelPos d) L)"
    unfolding L_def using wf_line_inj[OF wf] wf_line_distinct[OF wf] by (rule sortLine_travelPos)
  then have eq: "map (travelPos d) L = map int [0..<length (map (travelPos d) L)]"
    using sub by (rule strictly_sorted_initial_segment)
  have tp: "travelPos d (L ! k) = int k" if "k < length L" for k
  proof -
    have "travelPos d (L ! k) = map (travelPos d) L ! k"
      using that by simp
    also have "\<dots> = map int [0..<length (map (travelPos d) L)] ! k"
      using eq by simp
    also have "\<dots> = int k"
      using that by simp
    finally show ?thesis .
  qed
  have "linePos d (L ! k) = (if reverse d then int GRID_SIZE - 1 - int k else int k)"
    if "k < length L" for k
  proof -
    have "travelPos d (L ! k) = int k"
      using that by (rule tp)
    then show ?thesis
      by (cases "reverse d") (auto simp: travelPos_def)
  qed
  then have "\<forall>k<length L. linePos d (L ! k) = (if reverse d then int GRID_SIZE - 1 - int k else int k)"
    by blast
  then show "\<forall>k<length (line_in d cur j).
           linePos d (line_in d cur j ! k) = (if reverse d then int GRID_SIZE - 1 - int k else int k)"
    by (simp add: L_def)
qed

lemma merged_fixed_Cons:
  assumes "merged (a # b # rest) = a # b # rest"
  shows "a \<noteq> b" and "merged (b # rest) = b # rest"
proof -
  show ab: "a \<noteq> b"
  proof
    assume "a = b"
    then have "length (merged (a # b # rest)) = Suc (length (merged rest))"
      by simp
    then show False
      using assms length_merged_le[of rest] by simp
  qed
  then show "merged (b # rest) = b # rest"
    using assms by simp
qed

lemma process_line_unmoved:
  assumes "merged (map tvalue line) = map tvalue line"
    and "\<forall>k<length line. linePos d (line ! k) = fst (snd st) + step * int k"
    and "\<forall>t\<in>set line. lineIdx d t = i"
  shows "snd (snd (snd (snd (process_line (isHorizontal d) i step line st)))) =
           snd (snd (snd (snd st)))"
  using assms
proof (induction "isHorizontal d" i step line st rule: process_line.induct)
  case (1 i step st)
  show ?case by simp
next
  case (2 i step tile st)
  obtain acc pos c p m where st: "st = (acc, pos, c, p, m)"
    by (cases st)
  have "linePos d tile = pos" "lineIdx d tile = i"
    using 2 by (simp_all add: st)
  then show ?case
    by (auto simp: st shift_branch_def Let_def linePos_def lineIdx_def split: if_splits)
next
  case (3 i step tile nextTile rest st)
  obtain acc pos c p m where st: "st = (acc, pos, c, p, m)"
    by (cases st)
  have ne: "tvalue tile \<noteq> tvalue nextTile"
    and fixd: "merged (map tvalue (nextTile # rest)) = map tvalue (nextTile # rest)"
    using merged_fixed_Cons[of "tvalue tile" "tvalue nextTile" "map tvalue rest"] 3(3)
    by simp_all
  define st' where "st' = shift_branch (isHorizontal d) i step tile st"
  have here: "linePos d tile = pos" "lineIdx d tile = i"
    using 3(4)[rule_format, of 0] 3(5) by (simp_all add: st)
  have st': "fst (snd st') = pos + step" "snd (snd (snd (snd st'))) = m"
    using here
    by (auto simp: st'_def st shift_branch_def Let_def linePos_def lineIdx_def split: if_splits)
  have pos': "\<forall>k<length (nextTile # rest). linePos d ((nextTile # rest) ! k) = fst (snd st') + step * int k"
  proof (intro allI impI)
    fix k assume "k < length (nextTile # rest)"
    then show "linePos d ((nextTile # rest) ! k) = fst (snd st') + step * int k"
      using 3(4)[rule_format, of "Suc k"] by (simp add: st st'(1) algebra_simps)
  qed
  have "snd (snd (snd (snd (process_line (isHorizontal d) i step (nextTile # rest) st')))) =
          snd (snd (snd (snd st')))"
    using 3(2)[OF ne fixd] pos' 3(5)
    unfolding st'_def by simp
  moreover have "process_line (isHorizontal d) i step (tile # nextTile # rest) st =
      process_line (isHorizontal d) i step (nextTile # rest) st'"
    using ne by (simp add: st'_def)
  ultimately show ?case
    using st'(2) by (simp add: st)
qed

lemma move_line_unmoved:
  assumes wf: "wf_tiles cur" and j: "j < 4"
    and same: "fst (slide_line d (grid_line d (tilesToGrid cur) j)) = grid_line d (tilesToGrid cur) j"
  shows "snd (snd (snd (move_line d cur j (acc, c, p, m)))) = m"
proof -
  define pos0 :: int where "pos0 = (if reverse d then int GRID_SIZE - 1 else 0)"
  define step :: int where "step = (if reverse d then - 1 else 1)"
  define r where "r = process_line (isHorizontal d) (int j) step (line_in d cur j) ([], pos0, c, p, m)"
  note rest = unchanged_line_at_rest[OF wf j same]
  have pos: "\<forall>k<length (line_in d cur j).
      linePos d (line_in d cur j ! k) = fst (snd ([] :: Tile list, pos0, c, p, m)) + step * int k"
    using rest(2) by (simp add: pos0_def step_def)
  have idx: "\<forall>t\<in>set (line_in d cur j). lineIdx d t = int j"
    by (simp add: sortLine_def)
  have "snd (snd (snd (snd r))) = snd (snd (snd (snd ([] :: Tile list, pos0, c, p, m))))"
    unfolding r_def using rest(1) pos idx by (rule process_line_unmoved)
  then have "snd (snd (snd (snd r))) = m"
    by simp
  moreover have "move_line d cur j (acc, c, p, m) =
      (case r of (P, pos', c', p', m') \<Rightarrow> (acc @ P, c', p', m'))"
    unfolding r_def pos0_def step_def by (rule move_line_eq)
  ultimately show ?thesis
    by (cases r) simp
qed

lemma fold_move_line_unmoved:
  assumes wf: "wf_tiles cur" and js: "set js \<subseteq> {..<4}"
    and same: "\<And>j. j < 4 \<Longrightarrow>
      fst (slide_line d (grid_line d (tilesToGrid cur) j)) = grid_line d (tilesToGrid cur) j"
  shows "snd (snd (snd (fold (move_line d cur) js (acc, c, p, m)))) = m"
  using js
proof (induction js arbitrary: acc c p m)
  case Nil
  show ?case by simp
next
  case (Cons i js)
  obtain acc' c' p' m' where s: "move_line d cur i (acc, c, p, m) = (acc', c', p', m')"
    by (cases "move_line d cur i (acc, c, p, m)")
  have i: "i < 4" using Cons.prems by simp
  have "m' = m"
    using move_line_unmoved[OF wf i same[OF i], of acc c p m] by (simp add: s)
  then show ?case
    using Cons.IH[of acc' c' p' m'] Cons.prems by (simp add: s)
qed

lemma moved_tiles_sound:
  assumes wf: "wf_tiles ts"
    and moved: "snd (snd (snd (move_transform_tiles d ts c)))"
  shows "tilesToGrid (fst (move_transform_tiles d ts c)) \<noteq> tilesToGrid ts"
proof
  assume eq: "tilesToGrid (fst (move_transform_tiles d ts c)) = tilesToGrid ts"
  let ?cur = "map clearFlags ts"
  let ?G = "tilesToGrid ts"
  have wfc: "wf_tiles ?cur"
    using wf by (simp add: wf_tiles_clearFlags)
  have "fst (move_transform_grid d ?G) = ?G"
    using move_tiles_refines_grid(1)[OF wf, of d c] eq by simp
  then have "fst (slide_line d (grid_line d ?G j)) = grid_line d ?G j" if "j < 4" for j
    using move_transform_grid_line[OF is_board_tilesToGrid that, where d=d and ts1=ts] by simp
  then have "snd (snd (snd (fold (move_line d ?cur) [0..<4] ([], c, 0, False)))) = False"
    using wfc by (intro fold_move_line_unmoved) (auto simp: tilesToGrid_clearFlags)
  then show False
    using moved by (simp add: move_transform_tiles_def)
qed

lemma moved_tiles_implies_moved_grid:
  assumes "wf_tiles ts" and "snd (snd (snd (move_transform_tiles d ts c)))"
  shows "snd (snd (move_transform_grid d (tilesToGrid ts)))"
  using moved_tiles_sound[OF assms] move_tiles_refines_grid(1)[OF assms(1), of d c]
    moved_iff_changed_grid[OF is_board_tilesToGrid, where d=d and ts1=ts]
  by simp

end
